theory Spec2Isabelle
  imports Main "HOL-Library.Code_Target_Nat"
begin

section \<open>JavaScript values and plain objects\<close>

text \<open>
  The secrets editor slice keeps a secret as a plain JavaScript object used as a
  dictionary, and its claims are about the order of that object's keys. The order of
  the own keys of an ordinary object (\<^verbatim>\<open>Object.keys\<close>, object spread, \<^verbatim>\<open>forEach\<close> over
  the keys) is fixed by the language: first the keys that are array indices, in ascending
  numeric order, then every other string key in the order of creation. An object is
  modelled as the list of its own properties in exactly that order.

  Values are the JSON values a secret can hold, \<^verbatim>\<open>undefined\<close>, and the values found on
  \<^verbatim>\<open>Object.prototype\<close> (\<open>JBuiltin\<close>, named by their property). Numbers are opaque to
  the slice and are represented by integers.
\<close>

datatype jvalue =
    JUndefined
  | JNull
  | JBool bool
  | JNum int
  | JStr string
  | JArr "jvalue list"
  | JObj "(string \<times> jvalue) list"
  | JBuiltin string

type_synonym jsobj = "(string \<times> jvalue) list"

subsection \<open>Array indices\<close>

text \<open>
  A property key is an array index when it is the canonical decimal numeral of an integer
  between 0 and \<open>2\<^sup>3\<^sup>2 - 2\<close>: \<^verbatim>\<open>"0"\<close>, \<^verbatim>\<open>"7"\<close>, \<^verbatim>\<open>"10"\<close>, but not \<^verbatim>\<open>"07"\<close>, \<^verbatim>\<open>"-1"\<close> or \<^verbatim>\<open>"1.0"\<close>.
\<close>

definition is_digit :: "char \<Rightarrow> bool" where
  "is_digit c = (c \<in> set ''0123456789'')"

definition digit_value :: "char \<Rightarrow> nat" where
  "digit_value c = of_char c - 48"

definition digit_char :: "nat \<Rightarrow> char" where
  "digit_char d = char_of (48 + d)"

definition parse_nat :: "string \<Rightarrow> nat" where
  "parse_nat s = foldl (\<lambda>a c. 10 * a + digit_value c) 0 s"

fun show_nat :: "nat \<Rightarrow> string" where
  "show_nat n = (if n < 10 then [digit_char n] else show_nat (n div 10) @ [digit_char (n mod 10)])"

declare show_nat.simps [simp del]

definition array_index :: "string \<Rightarrow> nat option" where
  "array_index s =
     (if s \<noteq> [] \<and> list_all is_digit s \<and> show_nat (parse_nat s) = s \<and> parse_nat s < 4294967295
      then Some (parse_nat s) else None)"

text \<open>
  \<open>key_before k' k\<close>: an existing own key \<open>k'\<close> stays in front of a newly created key \<open>k\<close>.
  A new key that is not an array index goes behind every existing key; a new array index
  goes behind the smaller array indices only.
\<close>

definition key_before :: "string \<Rightarrow> string \<Rightarrow> bool" where
  "key_before k' k =
     (case array_index k of
        None \<Rightarrow> True
      | Some i \<Rightarrow> (case array_index k' of None \<Rightarrow> False | Some j \<Rightarrow> j < i))"

subsection \<open>Operations on own properties\<close>

definition own_keys :: "jsobj \<Rightarrow> string list" where
  \<comment> \<open>\<^verbatim>\<open>Object.keys(o)\<close>\<close>
  "own_keys obj = map fst obj"

definition has_own :: "jsobj \<Rightarrow> string \<Rightarrow> bool" where
  "has_own obj k = (k \<in> set (own_keys obj))"

text \<open>
  The names that every plain object inherits from \<^verbatim>\<open>Object.prototype\<close>. All of them are
  writable data properties, except \<^verbatim>\<open>__proto__\<close>, which is an accessor. Reading a property
  and the operator \<^verbatim>\<open>in\<close> look a name up among the own properties and then among these
  names: the objects that the slice reads (the secret of the state, the stored secret)
  are taken to have \<^verbatim>\<open>Object.prototype\<close> as their prototype.
\<close>

definition object_prototype_names :: "string list" where
  "object_prototype_names =
     [''constructor'', ''__defineGetter__'', ''__defineSetter__'', ''hasOwnProperty'',
      ''__lookupGetter__'', ''__lookupSetter__'', ''isPrototypeOf'', ''propertyIsEnumerable'',
      ''toString'', ''valueOf'', ''__proto__'', ''toLocaleString'']"

definition in_op :: "string \<Rightarrow> jsobj \<Rightarrow> bool" where
  \<comment> \<open>\<^verbatim>\<open>k in o\<close>: own or inherited\<close>
  "in_op k obj = (has_own obj k \<or> k \<in> set object_prototype_names)"

definition obj_get :: "jsobj \<Rightarrow> string \<Rightarrow> jvalue" where
  \<comment> \<open>\<^verbatim>\<open>o[k]\<close>: the own value, else the inherited one, else \<^verbatim>\<open>undefined\<close>\<close>
  "obj_get obj k =
     (case map_of obj k of
        Some v \<Rightarrow> v
      | None \<Rightarrow> if k \<in> set object_prototype_names then JBuiltin k else JUndefined)"

fun obj_update :: "jsobj \<Rightarrow> string \<Rightarrow> jvalue \<Rightarrow> jsobj" where
  \<comment> \<open>overwrite the value of an existing own property; its position is kept\<close>
  "obj_update [] k v = []"
| "obj_update ((k', v') # ps) k v =
     (if k' = k then (k, v) # ps else (k', v') # obj_update ps k v)"

fun obj_insert :: "jsobj \<Rightarrow> string \<Rightarrow> jvalue \<Rightarrow> jsobj" where
  \<comment> \<open>create a new own property\<close>
  "obj_insert [] k v = [(k, v)]"
| "obj_insert ((k', v') # ps) k v =
     (if key_before k' k then (k', v') # obj_insert ps k v else (k, v) # (k', v') # ps)"

definition obj_define :: "jsobj \<Rightarrow> string \<Rightarrow> jvalue \<Rightarrow> jsobj" where
  \<comment> \<open>a property of an object literal or of a spread: always an own data property\<close>
  "obj_define obj k v = (if has_own obj k then obj_update obj k v else obj_insert obj k v)"

definition obj_delete :: "jsobj \<Rightarrow> string \<Rightarrow> jsobj" where
  \<comment> \<open>\<^verbatim>\<open>delete o[k]\<close>\<close>
  "obj_delete obj k = filter (\<lambda>p. fst p \<noteq> k) obj"

definition obj_spread :: "jsobj \<Rightarrow> jsobj" where
  \<comment> \<open>\<^verbatim>\<open>{ ...o }\<close>: the own properties are defined one by one on a fresh object\<close>
  "obj_spread obj = foldl (\<lambda>acc p. obj_define acc (fst p) (snd p)) [] obj"

definition wf_obj :: "jsobj \<Rightarrow> bool" where
  \<comment> \<open>what every object satisfies: no key twice, keys in the language's order\<close>
  "wf_obj obj = (distinct (own_keys obj) \<and> sorted_wrt key_before (own_keys obj))"

subsection \<open>Assignment\<close>

text \<open>
  An assignment \<^verbatim>\<open>o[k] = v\<close> overwrites an own property where it stands and creates a new
  one otherwise, except that an assignment to \<^verbatim>\<open>__proto__\<close> may be taken by the accessor of
  \<^verbatim>\<open>Object.prototype\<close>. The accessor creates no own property: it sets the prototype of the
  object when the value is an object or \<^verbatim>\<open>null\<close>, and does nothing for any other value.

  In a reducer the secret is an Immer draft. The draft hands every assignment to
  \<^verbatim>\<open>__proto__\<close> over to that accessor, whether the draft has an own property of the name or
  not, and it refuses to have its prototype set: the assignment throws when the value is
  an object or \<^verbatim>\<open>null\<close>. (A draft also leaves out the write of a value that the property
  already reads as; for a key that is not an own key this can only be a value of
  \<^verbatim>\<open>Object.prototype\<close>, which is not a value of a secret.)
\<close>

datatype error = AssertionError | TypeError | ImmerError

definition is_object_or_null :: "jvalue \<Rightarrow> bool" where
  "is_object_or_null v =
     (case v of
        JNull \<Rightarrow> True
      | JArr _ \<Rightarrow> True
      | JObj _ \<Rightarrow> True
      | JBuiltin _ \<Rightarrow> True
      | _ \<Rightarrow> False)"

definition draft_set :: "jsobj \<Rightarrow> string \<Rightarrow> jvalue \<Rightarrow> error + jsobj" where
  \<comment> \<open>\<^verbatim>\<open>o[k] = v\<close> on an Immer draft\<close>
  "draft_set obj k v =
     (if k = ''__proto__'' then (if is_object_or_null v then Inl ImmerError else Inr obj)
      else if has_own obj k then Inr (obj_update obj k v)
      else Inr (obj_insert obj k v))"

text \<open>
  Outside a reducer the objects are plain. One of them is assigned to, the copy that
  \<^verbatim>\<open>openSecret\<close> fills; it is modelled by its own properties together with a flag that
  tells whether an assignment to \<^verbatim>\<open>__proto__\<close> still reaches the accessor. It does until
  the accessor has set the prototype to \<^verbatim>\<open>null\<close> or to an object with an own property
  \<^verbatim>\<open>__proto__\<close>; from then on the assignment creates an own property like any other.
\<close>

definition plain_set :: "jsobj \<times> bool \<Rightarrow> string \<Rightarrow> jvalue \<Rightarrow> jsobj \<times> bool" where
  \<comment> \<open>\<^verbatim>\<open>o[k] = v\<close> on a plain object\<close>
  "plain_set po k v =
     (case po of (obj, accessor) \<Rightarrow>
        if has_own obj k then (obj_update obj k v, accessor)
        else if k = ''__proto__'' \<and> accessor
        then (obj, case v of JNull \<Rightarrow> False | JObj ps \<Rightarrow> \<not> has_own ps ''__proto__'' | _ \<Rightarrow> True)
        else (obj_insert obj k v, accessor))"

section \<open>The state of the slice\<close>

text \<open>
  \<^verbatim>\<open>SecretWithMetadata\<close> is declared by the secrets-manager client port. The slice reads and
  writes \<^verbatim>\<open>metadata.created_time\<close> and \<^verbatim>\<open>metadata.version\<close> only; the remaining metadata
  fields are kept as \<open>rest\<close>. The version is a JavaScript number whose value is an integer.
\<close>

record 'r metadata =
  created_time :: string
  version :: int
  rest :: 'r

record 'r secretWithMetadata =
  metadata :: "'r metadata"
  secret :: jsobj

record 'r secretsEditorState =
  dirPath :: string
  basename :: string
  secretWithMetadata :: "'r secretWithMetadata option"  \<comment> \<open>\<^verbatim>\<open>undefined\<close> while being opened\<close>
  hiddenKeys :: "string list"
  isBeingUpdated :: bool

datatype hide_or_reveal = Hide | Reveal

datatype edit_action =
    AddOrOverwriteKeyValue string
  | RenameKey string
  | RenameKeyAndUpdateValue string string
  | RemoveKeyValue
  | HideOrRevealKey hide_or_reveal

record editSecretParams =
  key :: string
  action :: edit_action

definition extraKey :: string where
  "extraKey = ''.onyxia''"

section \<open>The reducers\<close>

text \<open>
  The state of the slice is \<^verbatim>\<open>SecretsEditorState | null\<close>. A reducer whose \<^verbatim>\<open>assert\<close> fails
  throws; the result is then \<open>Inl AssertionError\<close>.
\<close>

definition openStarted ::
  "'r secretsEditorState option \<Rightarrow> string \<Rightarrow> string \<Rightarrow> 'r secretsEditorState option" where
  "openStarted state dp bn =
     Some \<lparr>dirPath = dp, basename = bn, secretWithMetadata = None,
           hiddenKeys = [], isBeingUpdated = True\<rparr>"

definition openCompleted ::
  "'r secretsEditorState option \<Rightarrow> 'r secretWithMetadata \<Rightarrow> string list
     \<Rightarrow> error + 'r secretsEditorState option" where
  "openCompleted state swm hk =
     (case state of
        None \<Rightarrow> Inl AssertionError
      | Some st \<Rightarrow>
          Inr (Some (st\<lparr>secretWithMetadata := Some swm, hiddenKeys := hk,
                         isBeingUpdated := False\<rparr>)))"

fun assign_all ::
  "(string \<Rightarrow> string) \<Rightarrow> (string \<Rightarrow> jvalue) \<Rightarrow> jsobj \<Rightarrow> string list \<Rightarrow> error + jsobj" where
  \<comment> \<open>\<^verbatim>\<open>keys.forEach(key_i => (secret[f(key_i)] = g(key_i)))\<close> on the draft; it stops at a throw\<close>
  "assign_all f g obj [] = Inr obj"
| "assign_all f g obj (key_i # keys) =
     (case draft_set obj (f key_i) (g key_i) of
        Inl e \<Rightarrow> Inl e
      | Inr obj' \<Rightarrow> assign_all f g obj' keys)"

definition renameKey :: "jsobj \<Rightarrow> string \<Rightarrow> string \<Rightarrow> error + jsobj" where
  "renameKey sec k newKey =
     (let secretClone = obj_spread sec;
          emptied = foldl obj_delete sec (own_keys secretClone)
      in assign_all (\<lambda>key_i. if key_i = k then newKey else key_i) (obj_get secretClone)
           emptied (own_keys secretClone))"

text \<open>
  The reducer changes the secret of the draft, or its hidden keys, and then sets
  \<^verbatim>\<open>isBeingUpdated\<close>. When an assignment throws, the reducer throws and the state stays as it
  was.
\<close>

definition edited_secret :: "jsobj \<Rightarrow> editSecretParams \<Rightarrow> error + jsobj" where
  \<comment> \<open>what the \<^verbatim>\<open>switch\<close> does to \<^verbatim>\<open>secret\<close>\<close>
  "edited_secret sec payload =
     (case action payload of
        AddOrOverwriteKeyValue v \<Rightarrow> draft_set sec (key payload) (JStr v)
      | RemoveKeyValue \<Rightarrow> Inr (obj_delete sec (key payload))
      | RenameKeyAndUpdateValue newKey newValue \<Rightarrow>
          (case renameKey sec (key payload) newKey of
             Inl e \<Rightarrow> Inl e
           | Inr renamed \<Rightarrow> draft_set renamed newKey (JStr newValue))
      | RenameKey newKey \<Rightarrow> renameKey sec (key payload) newKey
      | HideOrRevealKey _ \<Rightarrow> Inr sec)"

definition edited_hiddenKeys :: "string list \<Rightarrow> editSecretParams \<Rightarrow> string list" where
  \<comment> \<open>what the \<^verbatim>\<open>switch\<close> does to \<^verbatim>\<open>state.hiddenKeys\<close>\<close>
  "edited_hiddenKeys hk payload =
     (case action payload of
        HideOrRevealKey Hide \<Rightarrow> hk @ [key payload]
      | HideOrRevealKey Reveal \<Rightarrow> filter (\<lambda>key_i. key_i \<noteq> key payload) hk
      | _ \<Rightarrow> hk)"

definition editSecretStarted ::
  "'r secretsEditorState option \<Rightarrow> editSecretParams \<Rightarrow> error + 'r secretsEditorState option" where
  "editSecretStarted state payload =
     (case state of
        None \<Rightarrow> Inl AssertionError
      | Some st \<Rightarrow>
          (case secretWithMetadata st of
             None \<Rightarrow> Inl AssertionError
           | Some swm \<Rightarrow>
               (case edited_secret (secret swm) payload of
                  Inl e \<Rightarrow> Inl e
                | Inr sec' \<Rightarrow>
                    Inr (Some (st\<lparr>secretWithMetadata := Some (swm\<lparr>secret := sec'\<rparr>),
                                  hiddenKeys := edited_hiddenKeys (hiddenKeys st) payload,
                                  isBeingUpdated := True\<rparr>)))))"

text \<open>
  \<^verbatim>\<open>metadata.version++\<close> adds one in double precision: the result is the sum rounded to the
  nearest number with a significand of 53 bits, a tie going to the even significand. Up to
  \<open>2\<^sup>5\<^sup>3\<close> in absolute value every integer is such a number.
\<close>

fun ulp_exp :: "nat \<Rightarrow> nat" where
  \<comment> \<open>how many low bits a number of this size cannot hold\<close>
  "ulp_exp a = (if a < 9007199254740992 then 0 else Suc (ulp_exp (a div 2)))"

declare ulp_exp.simps [simp del]

definition round_to_double :: "int \<Rightarrow> int" where
  "round_to_double n =
     (let e = ulp_exp (nat \<bar>n\<bar>); q = \<bar>n\<bar> div 2 ^ e; r = \<bar>n\<bar> mod 2 ^ e
      in if e = 0 then n
         else sgn n * (if 2 ^ e < 2 * r \<or> (2 * r = 2 ^ e \<and> odd q) then q + 1 else q) * 2 ^ e)"

definition js_increment :: "int \<Rightarrow> int" where
  "js_increment v = round_to_double (v + 1)"

text \<open>\<open>now\<close> is what \<^verbatim>\<open>new Date().toISOString()\<close> returns when the reducer runs.\<close>

definition editSecretCompleted ::
  "string \<Rightarrow> 'r secretsEditorState option \<Rightarrow> error + 'r secretsEditorState option" where
  "editSecretCompleted now state =
     (case state of
        None \<Rightarrow> Inl AssertionError
      | Some st \<Rightarrow>
          (case secretWithMetadata st of
             None \<Rightarrow> Inl AssertionError
           | Some swm \<Rightarrow>
               Inr (Some (st\<lparr>secretWithMetadata :=
                               Some (swm\<lparr>metadata := (metadata swm)\<lparr>created_time := now,
                                              version := js_increment (version (metadata swm))\<rparr>\<rparr>),
                             isBeingUpdated := False\<rparr>))))"

datatype 'r action =
    OpenStarted string string
  | OpenCompleted "'r secretWithMetadata" "string list"
  | EditSecretStarted editSecretParams
  | EditSecretCompleted

definition reducer ::
  "string \<Rightarrow> 'r secretsEditorState option \<Rightarrow> 'r action \<Rightarrow> error + 'r secretsEditorState option" where
  "reducer now state a =
     (case a of
        OpenStarted dp bn \<Rightarrow> Inr (openStarted state dp bn)
      | OpenCompleted swm hk \<Rightarrow> openCompleted state swm hk
      | EditSecretStarted payload \<Rightarrow> editSecretStarted state payload
      | EditSecretCompleted \<Rightarrow> editSecretCompleted now state)"

text \<open>The store applies the reducer to the actions in the order of their dispatch.\<close>

fun run :: "string \<Rightarrow> 'r secretsEditorState option \<Rightarrow> 'r action list
    \<Rightarrow> error + 'r secretsEditorState option" where
  "run now state [] = Inr state"
| "run now state (a # as) =
     (case reducer now state a of
        Inl e \<Rightarrow> Inl e
      | Inr state' \<Rightarrow> run now state' as)"

section \<open>The thunks\<close>

text \<open>
  A thunk talks to the secrets-manager client and dispatches actions. The client is a
  parameter: \<open>get\<close> and \<open>put\<close> give the outcome of the request, a rejection being an
  \<^verbatim>\<open>Error\<close> with its message, whatever its cause. The path of the secret (\<^verbatim>\<open>secretPath\<close>,
  \<^verbatim>\<open>state.currentPath\<close>) is a parameter as well. The run of a thunk yields the state of the
  slice, the trace of what the thunk did, in order, and the error it threw, if any (the
  promise of the thunk is then rejected).

  The slice declares four reducers, so that \<^verbatim>\<open>actions\<close> has four action creators.
  \<^verbatim>\<open>actions.errorOcurred\<close> and \<^verbatim>\<open>actions.navigationTowardSecretSuccess\<close> are \<^verbatim>\<open>undefined\<close>:
  calling them throws a \<^verbatim>\<open>TypeError\<close>, and nothing is dispatched.
\<close>

datatype 'c js_error = Error (message: string) (cause: 'c)

datatype 'r event =
    Dispatch "'r action"
  | GetCalled string
  | PutCalled string jsobj

subsection \<open>openSecret\<close>

definition read_extra_field :: "jvalue \<Rightarrow> string \<Rightarrow> error + jvalue" where
  \<comment> \<open>destructuring \<^verbatim>\<open>hiddenKeys\<close> or \<^verbatim>\<open>keysOrdering\<close> out of \<^verbatim>\<open>secret[extraKey]\<close>: a
      \<^verbatim>\<open>TypeError\<close> on \<^verbatim>\<open>undefined\<close> and \<^verbatim>\<open>null\<close>, \<^verbatim>\<open>undefined\<close> on what is not an object\<close>
  "read_extra_field v field =
     (case v of
        JUndefined \<Rightarrow> Inl TypeError
      | JNull \<Rightarrow> Inl TypeError
      | JObj ps \<Rightarrow> Inr (obj_get ps field)
      | _ \<Rightarrow> Inr JUndefined)"

definition is_JStr :: "jvalue \<Rightarrow> bool" where
  "is_JStr v = (case v of JStr _ \<Rightarrow> True | _ \<Rightarrow> False)"

definition is_string_array :: "jvalue \<Rightarrow> bool" where
  \<comment> \<open>\<^verbatim>\<open>arr instanceof Array && arr.every(key => typeof key === "string")\<close>\<close>
  "is_string_array v = (case v of JArr xs \<Rightarrow> list_all is_JStr xs | _ \<Rightarrow> False)"

definition strings_of :: "jvalue \<Rightarrow> string list" where
  "strings_of v =
     (case v of
        JArr xs \<Rightarrow> List.map_filter (\<lambda>x. case x of JStr s \<Rightarrow> Some s | _ \<Rightarrow> None) xs
      | _ \<Rightarrow> [])"

definition try_extract :: "jsobj \<Rightarrow> error + (string list \<times> string list)" where
  \<comment> \<open>the body of the \<^verbatim>\<open>try\<close>\<close>
  "try_extract sec =
     (case read_extra_field (obj_get sec extraKey) ''hiddenKeys'' of
        Inl e \<Rightarrow> Inl e
      | Inr hk \<Rightarrow>
          (case read_extra_field (obj_get sec extraKey) ''keysOrdering'' of
             Inl e \<Rightarrow> Inl e
           | Inr ko \<Rightarrow>
               if \<not> is_string_array hk then Inl AssertionError
               else if \<not> is_string_array ko then Inl AssertionError
               else Inr (strings_of hk, filter (\<lambda>k. in_op k sec) (strings_of ko))))"

definition extract_extra :: "jsobj \<Rightarrow> string list \<times> string list" where
  \<comment> \<open>the \<^verbatim>\<open>try\<close> with its \<^verbatim>\<open>catch\<close>: the pair of \<^verbatim>\<open>hiddenKeys\<close> and \<^verbatim>\<open>keysOrdering\<close>\<close>
  "extract_extra sec =
     (case try_extract sec of
        Inr r \<Rightarrow> r
      | Inl _ \<Rightarrow> ([], own_keys sec))"

definition reorder :: "jsobj \<Rightarrow> string list \<Rightarrow> jsobj" where
  \<comment> \<open>\<^verbatim>\<open>orderedSecret\<close>, by its own properties\<close>
  "reorder sec keysOrdering =
     (let orderedSecret = obj_delete (obj_spread sec) extraKey;
          removed = foldl obj_delete orderedSecret keysOrdering
      in fst (foldl (\<lambda>s k. plain_set s k (obj_get sec k)) (removed, True) keysOrdering))"

definition navigationArgument :: "'r secretWithMetadata \<Rightarrow> 'r secretWithMetadata \<times> string list" where
  \<comment> \<open>the secret and the hidden keys of the argument made for
      \<^verbatim>\<open>actions.navigationTowardSecretSuccess\<close>\<close>
  "navigationArgument swm =
     (case extract_extra (secret swm) of
        (hk, keysOrdering) \<Rightarrow>
          (\<lparr>metadata = metadata swm, secret = reorder (secret swm) keysOrdering\<rparr>, hk))"

definition openSecret ::
  "(string \<Rightarrow> 'c js_error + 'r secretWithMetadata) \<Rightarrow> string
     \<Rightarrow> 'r secretsEditorState option \<Rightarrow> string \<Rightarrow> string
     \<Rightarrow> 'r secretsEditorState option \<times> 'r event list \<times> error option" where
  "openSecret get secretPath state dp bn =
     (let state1 = openStarted state dp bn;
          started = [Dispatch (OpenStarted dp bn), GetCalled secretPath]
      in case get secretPath of
           Inl err \<Rightarrow>
             \<comment> \<open>\<^verbatim>\<open>actions.errorOcurred\<close> is called\<close>
             (state1, started, Some TypeError)
         | Inr swm \<Rightarrow>
             \<comment> \<open>\<^verbatim>\<open>actions.navigationTowardSecretSuccess\<close> is called, its argument made first\<close>
             (let argument = navigationArgument swm
              in (state1, started, Some TypeError)))"

subsection \<open>editCurrentlyShownSecret\<close>

definition getSecretAndHiddenKeys ::
  "'r secretsEditorState option \<Rightarrow> error + (jsobj \<times> string list)" where
  \<comment> \<open>\<^verbatim>\<open>getSecretCurrentPathAndHiddenKeys\<close>; it asserts that a secret is shown\<close>
  "getSecretAndHiddenKeys state =
     (case state of
        None \<Rightarrow> Inl AssertionError
      | Some st \<Rightarrow>
          (case secretWithMetadata st of
             None \<Rightarrow> Inl AssertionError
           | Some swm \<Rightarrow> Inr (secret swm, hiddenKeys st)))"

definition nothing_to_do :: "jsobj \<Rightarrow> editSecretParams \<Rightarrow> bool" where
  \<comment> \<open>the block \<^verbatim>\<open>//Optimizations\<close>: the cases in which the thunk returns at once\<close>
  "nothing_to_do sec params =
     (case action params of
        AddOrOverwriteKeyValue v \<Rightarrow> obj_get sec (key params) = JStr v
      | RenameKey newKey \<Rightarrow> key params = newKey
      | RenameKeyAndUpdateValue newKey newValue \<Rightarrow>
          key params = newKey \<and> obj_get sec (key params) = JStr newValue
      | RemoveKeyValue \<Rightarrow> \<not> in_op (key params) sec
      | HideOrRevealKey _ \<Rightarrow> False)"

definition extraValue :: "string list \<Rightarrow> string list \<Rightarrow> jvalue" where
  \<comment> \<open>\<^verbatim>\<open>id<ExtraValue>({ hiddenKeys, keysOrdering })\<close>\<close>
  "extraValue hk ko =
     JObj [(''hiddenKeys'', JArr (map JStr hk)), (''keysOrdering'', JArr (map JStr ko))]"

definition put_payload :: "jsobj \<Rightarrow> string list \<Rightarrow> jsobj" where
  \<comment> \<open>\<^verbatim>\<open>{ ...secret, [extraKey]: { hiddenKeys, "keysOrdering": Object.keys(secret) } }\<close>\<close>
  "put_payload sec hk = obj_define (obj_spread sec) extraKey (extraValue hk (own_keys sec))"

definition editCurrentlyShownSecret ::
  "(string \<Rightarrow> jsobj \<Rightarrow> 'c js_error option) \<Rightarrow> string \<Rightarrow> string
     \<Rightarrow> 'r secretsEditorState option \<Rightarrow> editSecretParams
     \<Rightarrow> 'r secretsEditorState option \<times> 'r event list \<times> error option" where
  "editCurrentlyShownSecret put currentPath now state params =
     (case getSecretAndHiddenKeys state of
        Inl e \<Rightarrow> (state, [], Some e)
      | Inr (sec, _) \<Rightarrow>
          if nothing_to_do sec params then (state, [], None)
          else
            (case editSecretStarted state params of
               Inl e \<Rightarrow> (state, [], Some e)
             | Inr state1 \<Rightarrow>
                 (case getSecretAndHiddenKeys state1 of
                    Inl e \<Rightarrow> (state1, [Dispatch (EditSecretStarted params)], Some e)
                  | Inr (sec1, hk1) \<Rightarrow>
                      (let payload = put_payload sec1 hk1;
                           started = [Dispatch (EditSecretStarted params),
                                      PutCalled currentPath payload]
                       in case put currentPath payload of
                            Some err \<Rightarrow>
                              \<comment> \<open>\<^verbatim>\<open>actions.errorOcurred\<close> is called\<close>
                              (state1, started, Some TypeError)
                          | None \<Rightarrow>
                              (case editSecretCompleted now state1 of
                                 Inl e \<Rightarrow> (state1, started, Some e)
                               | Inr state2 \<Rightarrow>
                                   (state2, started @ [Dispatch EditSecretCompleted], None))))))"

section \<open>Notions used to state the properties\<close>

text \<open>
  What renaming a key is expected to give: the same entries at the same places, with the
  key \<open>k\<close> replaced by \<open>newKey\<close>.
\<close>

definition rename_entries :: "jsobj \<Rightarrow> string \<Rightarrow> string \<Rightarrow> jsobj" where
  "rename_entries obj k newKey = map (\<lambda>p. (if fst p = k then newKey else fst p, snd p)) obj"

text \<open>The secret of the state that a reducer returns, when there is one.\<close>

definition shown_secret :: "error + 'r secretsEditorState option \<Rightarrow> jsobj option" where
  "shown_secret r =
     (case r of
        Inr (Some st) \<Rightarrow> map_option secret (secretWithMetadata st)
      | _ \<Rightarrow> None)"

text \<open>The entries of an object under the keys other than the given ones, in their order.\<close>

definition entries_except :: "string list \<Rightarrow> jsobj \<Rightarrow> jsobj" where
  "entries_except ks obj = filter (\<lambda>p. fst p \<notin> set ks) obj"

text \<open>The secret of a state, when one is loaded, is an object.\<close>

definition wf_state :: "'r secretsEditorState option \<Rightarrow> bool" where
  "wf_state state =
     (case getSecretAndHiddenKeys state of
        Inl _ \<Rightarrow> True
      | Inr (sec, _) \<Rightarrow> wf_obj sec)"

text \<open>
  The invariant of the data model: the hidden keys are among the keys that the current
  secret declares. While the secret is being opened there is no key to hide.
\<close>

definition hidden_keys_declared :: "'r secretsEditorState option \<Rightarrow> bool" where
  "hidden_keys_declared state =
     (case state of
        None \<Rightarrow> True
      | Some st \<Rightarrow>
          (case secretWithMetadata st of
             None \<Rightarrow> hiddenKeys st = []
           | Some swm \<Rightarrow> list_all (\<lambda>h. has_own (secret swm) h) (hiddenKeys st)))"

text \<open>
  The actions that keep it: every action but \<^verbatim>\<open>openCompleted\<close> with hidden keys that its secret
  does not declare, hiding a key that the secret does not declare, removing or renaming a
  hidden key, and a renaming while \<^verbatim>\<open>__proto__\<close> is hidden.
\<close>

definition keeps_hidden_declared :: "'r secretsEditorState option \<Rightarrow> 'r action \<Rightarrow> bool" where
  "keeps_hidden_declared state a =
     (case a of
        OpenStarted _ _ \<Rightarrow> True
      | OpenCompleted swm hk \<Rightarrow> list_all (\<lambda>h. has_own (secret swm) h) hk
      | EditSecretCompleted \<Rightarrow> True
      | EditSecretStarted p \<Rightarrow>
          (case getSecretAndHiddenKeys state of
             Inl _ \<Rightarrow> True
           | Inr (sec, hk) \<Rightarrow>
               (case action p of
                  AddOrOverwriteKeyValue _ \<Rightarrow> True
                | RemoveKeyValue \<Rightarrow> key p \<notin> set hk
                | RenameKey _ \<Rightarrow> key p \<notin> set hk \<and> ''__proto__'' \<notin> set hk
                | RenameKeyAndUpdateValue _ _ \<Rightarrow> key p \<notin> set hk \<and> ''__proto__'' \<notin> set hk
                | HideOrRevealKey Hide \<Rightarrow> has_own sec (key p)
                | HideOrRevealKey Reveal \<Rightarrow> True)))"

text \<open>
  The bookkeeping entry of a stored secret is well formed when it is an object whose
  \<^verbatim>\<open>hiddenKeys\<close> and \<^verbatim>\<open>keysOrdering\<close> are both arrays of strings; it is malformed when it is
  absent, not an object, or when one of the two is missing, not an array, or holds a value
  that is not a string.
\<close>

definition well_formed_extra :: "jsobj \<Rightarrow> bool" where
  "well_formed_extra sec =
     (case obj_get sec extraKey of
        JObj ps \<Rightarrow>
          is_string_array (obj_get ps ''hiddenKeys'') \<and>
          is_string_array (obj_get ps ''keysOrdering'')
      | _ \<Rightarrow> False)"

section \<open>Example data\<close>

text \<open>A secret with two keys, shown with its password hidden.\<close>

definition example_swm :: "unit secretWithMetadata" where
  "example_swm =
     \<lparr>metadata = \<lparr>created_time = ''2021-01-01T00:00:00.000Z'', version = 1, rest = ()\<rparr>,
      secret = [(''user'', JStr ''admin''), (''password'', JStr ''hunter2'')]\<rparr>"

definition example_state :: "unit secretsEditorState" where
  "example_state =
     \<lparr>dirPath = ''/project'', basename = ''db'', secretWithMetadata = Some example_swm,
      hiddenKeys = [''password''], isBeingUpdated = False\<rparr>"

text \<open>A secret in which the key \<^verbatim>\<open>b\<close> comes before the key \<^verbatim>\<open>a\<close>.\<close>

definition colliding_swm :: "unit secretWithMetadata" where
  "colliding_swm =
     \<lparr>metadata = \<lparr>created_time = ''2021-01-01T00:00:00.000Z'', version = 1, rest = ()\<rparr>,
      secret = [(''b'', JStr ''2''), (''a'', JStr ''1'')]\<rparr>"

definition colliding_state :: "unit secretsEditorState" where
  "colliding_state =
     \<lparr>dirPath = ''/project'', basename = ''db'', secretWithMetadata = Some colliding_swm,
      hiddenKeys = [], isBeingUpdated = False\<rparr>"

text \<open>The same state with a version at the bound of the exact integers, \<open>2\<^sup>5\<^sup>3\<close>.\<close>

definition aged_state :: "unit secretsEditorState" where
  "aged_state =
     example_state\<lparr>secretWithMetadata :=
       Some (example_swm\<lparr>metadata :=
         (metadata example_swm)\<lparr>version := 9007199254740992\<rparr>\<rparr>)\<rparr>"

text \<open>A secret with a value that is an object.\<close>

definition nested_swm :: "unit secretWithMetadata" where
  "nested_swm =
     \<lparr>metadata = \<lparr>created_time = ''2021-01-01T00:00:00.000Z'', version = 1, rest = ()\<rparr>,
      secret = [(''tls'', JObj [(''cert'', JStr ''abc'')]), (''user'', JStr ''admin'')]\<rparr>"

definition nested_state :: "unit secretsEditorState" where
  "nested_state =
     \<lparr>dirPath = ''/project'', basename = ''db'', secretWithMetadata = Some nested_swm,
      hiddenKeys = [], isBeingUpdated = False\<rparr>"

text \<open>A secrets-manager client that accepts every request, and one that rejects them all.\<close>

definition accepting_put :: "string \<Rightarrow> jsobj \<Rightarrow> unit js_error option" where
  "accepting_put path payload = None"

definition rejecting_put :: "string \<Rightarrow> jsobj \<Rightarrow> unit js_error option" where
  "rejecting_put path payload = Some (Error ''permission denied'' ())"

definition rejecting_get :: "string \<Rightarrow> unit js_error + unit secretWithMetadata" where
  "rejecting_get path = Inl (Error ''permission denied'' ())"

text \<open>
  A secret with an own key \<^verbatim>\<open>__proto__\<close>, as \<^verbatim>\<open>JSON.parse\<close> makes one from
  \<^verbatim>\<open>{"__proto__": "x"}\<close>, and a stored secret whose bookkeeping entry still lists a key,
  \<^verbatim>\<open>toString\<close>, that the secret has no more.
\<close>

definition proto_secret :: jsobj where
  "proto_secret = [(''__proto__'', JStr ''x'')]"

definition stale_secret :: jsobj where
  "stale_secret = [(''a'', JStr ''1''), (''.onyxia'', extraValue [] [''toString'', ''a''])]"

section \<open>Properties of plain objects\<close>

subsection \<open>The order of keys\<close>

lemma array_index_inj:
  "array_index a = Some i \<Longrightarrow> array_index b = Some i \<Longrightarrow> a = b"
  by (metis array_index_def option.distinct(1) option.inject)

lemma key_before_trans:
  "key_before a b \<Longrightarrow> key_before b c \<Longrightarrow> key_before a c"
  by (auto simp: key_before_def split: option.splits)

lemma key_before_total:
  "\<not> key_before a b \<Longrightarrow> a \<noteq> b \<Longrightarrow> key_before b a"
  by (auto simp: key_before_def split: option.splits dest: array_index_inj)

lemma key_before_not_index:
  "array_index k = None \<Longrightarrow> key_before k' k"
  by (simp add: key_before_def)

subsection \<open>Creating and overwriting properties\<close>

lemma own_keys_update [simp]: "own_keys (obj_update obj k v) = own_keys obj"
  by (induction obj k v rule: obj_update.induct) (auto simp: own_keys_def)

lemma set_own_keys_insert [simp]:
  "set (own_keys (obj_insert obj k v)) = insert k (set (own_keys obj))"
  by (induction obj k v rule: obj_insert.induct) (auto simp: own_keys_def)

lemma obj_insert_snoc:
  "\<forall>k' \<in> set (own_keys obj). key_before k' k \<Longrightarrow> obj_insert obj k v = obj @ [(k, v)]"
  by (induction obj) (auto simp: own_keys_def)

text \<open>In an object, a new key goes behind exactly the keys that stay in front of it.\<close>

lemma obj_insert_split:
  "sorted_wrt key_before (own_keys obj) \<Longrightarrow>
   obj_insert obj k v =
     filter (\<lambda>p. key_before (fst p) k) obj @ (k, v) # filter (\<lambda>p. \<not> key_before (fst p) k) obj"
proof (induction obj)
  case Nil
  then show ?case by simp
next
  case (Cons p obj)
  obtain k' v' where p: "p = (k', v')" by (cases p)
  show ?case
  proof (cases "key_before k' k")
    case True
    with Cons p show ?thesis by (simp add: own_keys_def)
  next
    case False
    have "\<forall>q \<in> set obj. \<not> key_before (fst q) k"
    proof
      fix q assume "q \<in> set obj"
      with Cons.prems p have "key_before k' (fst q)" by (auto simp: own_keys_def)
      with False show "\<not> key_before (fst q) k" using key_before_trans by blast
    qed
    then have "filter (\<lambda>p. key_before (fst p) k) obj = []"
      and "filter (\<lambda>p. \<not> key_before (fst p) k) obj = obj"
      by (auto simp: filter_empty_conv filter_id_conv)
    with False p show ?thesis by simp
  qed
qed

lemma wf_obj_insert:
  assumes "wf_obj obj" "k \<notin> set (own_keys obj)"
  shows "wf_obj (obj_insert obj k v)"
proof -
  have s: "sorted_wrt key_before (own_keys obj)" and d: "distinct (own_keys obj)"
    using assms by (auto simp: wf_obj_def)
  let ?A = "filter (\<lambda>p. key_before (fst p) k) obj"
  let ?B = "filter (\<lambda>p. \<not> key_before (fst p) k) obj"
  have eq: "obj_insert obj k v = ?A @ (k, v) # ?B" using obj_insert_split [OF s] .
  have keys: "own_keys (?A @ (k, v) # ?B) =
      filter (\<lambda>x. key_before x k) (own_keys obj) @
      k # filter (\<lambda>x. \<not> key_before x k) (own_keys obj)"
    by (simp add: own_keys_def filter_map comp_def)
  have "distinct (own_keys (?A @ (k, v) # ?B))"
    unfolding keys using d assms(2) by auto
  moreover have "sorted_wrt key_before (own_keys (?A @ (k, v) # ?B))"
    unfolding keys using s assms(2)
    by (auto simp: sorted_wrt_append sorted_wrt_filter dest: key_before_total
          intro: key_before_trans)
  ultimately show ?thesis unfolding eq wf_obj_def by simp
qed

lemma wf_obj_Nil [simp]: "wf_obj []"
  by (simp add: wf_obj_def own_keys_def)

lemma own_keys_delete: "own_keys (obj_delete obj k) = filter (\<lambda>x. x \<noteq> k) (own_keys obj)"
  by (simp add: obj_delete_def own_keys_def filter_map comp_def)

lemma wf_obj_delete: "wf_obj obj \<Longrightarrow> wf_obj (obj_delete obj k)"
  by (simp add: wf_obj_def own_keys_delete sorted_wrt_filter)

lemma foldl_obj_delete: "foldl obj_delete obj ks = filter (\<lambda>p. fst p \<notin> set ks) obj"
proof (induction ks arbitrary: obj)
  case Nil
  then show ?case by simp
next
  case (Cons k ks)
  have "filter (\<lambda>p. fst p \<notin> set ks) (obj_delete obj k) = filter (\<lambda>p. fst p \<notin> set (k # ks)) obj"
    by (auto simp: obj_delete_def intro: filter_cong)
  with Cons show ?case by simp
qed

lemma wf_obj_update: "wf_obj obj \<Longrightarrow> wf_obj (obj_update obj k v)"
  by (simp add: wf_obj_def)

lemma wf_obj_define: "wf_obj obj \<Longrightarrow> wf_obj (obj_define obj k v)"
  by (simp add: obj_define_def has_own_def wf_obj_update wf_obj_insert)

lemma wf_obj_appendD: "wf_obj (ps @ qs) \<Longrightarrow> wf_obj ps"
  by (auto simp: wf_obj_def own_keys_def sorted_wrt_append)

lemma wf_obj_snoc_before:
  "wf_obj (ps @ (k, v) # qs) \<Longrightarrow> k \<notin> set (own_keys ps) \<and> (\<forall>k' \<in> set (own_keys ps). key_before k' k)"
  by (auto simp: wf_obj_def own_keys_def sorted_wrt_append)

text \<open>Defining, in their order, the properties of an object on top of its first properties.\<close>

lemma foldl_define_wf:
  "wf_obj (acc @ ps) \<Longrightarrow> foldl (\<lambda>a p. obj_define a (fst p) (snd p)) acc ps = acc @ ps"
proof (induction ps arbitrary: acc)
  case Nil
  then show ?case by simp
next
  case (Cons p ps)
  obtain k v where p: "p = (k, v)" by (cases p)
  from Cons.prems p have "k \<notin> set (own_keys acc)" "\<forall>k' \<in> set (own_keys acc). key_before k' k"
    using wf_obj_snoc_before by blast+
  then have "obj_define acc k v = acc @ [(k, v)]"
    by (simp add: obj_define_def has_own_def obj_insert_snoc)
  moreover from Cons.prems p have "wf_obj ((acc @ [(k, v)]) @ ps)" by simp
  ultimately show ?case using Cons.IH [of "acc @ [(k, v)]"] p by simp
qed

lemma obj_spread_wf: "wf_obj obj \<Longrightarrow> obj_spread obj = obj"
  using foldl_define_wf [of "[]" obj] by (simp add: obj_spread_def)

text \<open>Defining, in their order, properties that are new and come in the order of keys.\<close>

lemma foldl_define_keys_wf:
  assumes "wf_obj (acc @ map (\<lambda>x. (f x, g x)) xs)"
  shows "foldl (\<lambda>s x. obj_define s (f x) (g x)) acc xs = acc @ map (\<lambda>x. (f x, g x)) xs"
  using assms
proof (induction xs arbitrary: acc)
  case Nil
  then show ?case by simp
next
  case (Cons x xs)
  from Cons.prems have "f x \<notin> set (own_keys acc)"
    and "\<forall>k' \<in> set (own_keys acc). key_before k' (f x)"
    using wf_obj_snoc_before [of acc "f x" "g x"] by simp_all
  then have "obj_define acc (f x) (g x) = acc @ [(f x, g x)]"
    by (simp add: obj_define_def has_own_def obj_insert_snoc)
  moreover from Cons.prems have "wf_obj ((acc @ [(f x, g x)]) @ map (\<lambda>x. (f x, g x)) xs)"
    by simp
  ultimately show ?case using Cons.IH [of "acc @ [(f x, g x)]"] by simp
qed

lemma wf_obj_foldl_define:
  "wf_obj acc \<Longrightarrow> wf_obj (foldl (\<lambda>s x. obj_define s (f x) (g x)) acc xs)"
  by (induction xs arbitrary: acc) (simp_all add: wf_obj_define)

lemma map_of_own: "distinct (own_keys obj) \<Longrightarrow> (k, v) \<in> set obj \<Longrightarrow> map_of obj k = Some v"
  by (simp add: own_keys_def)

lemma obj_get_own: "distinct (own_keys obj) \<Longrightarrow> (k, v) \<in> set obj \<Longrightarrow> obj_get obj k = v"
  by (simp add: obj_get_def map_of_own)

lemma entries_by_keys:
  "distinct (own_keys obj) \<Longrightarrow> map (\<lambda>x. (f x, obj_get obj x)) (own_keys obj) = map (\<lambda>p. (f (fst p), snd p)) obj"
  by (auto simp: own_keys_def dest: obj_get_own[unfolded own_keys_def])

subsection \<open>Assignment on a draft and on a plain object\<close>

text \<open>Away from the key \<^verbatim>\<open>__proto__\<close> an assignment defines the property.\<close>

lemma draft_set_define:
  "k \<noteq> ''__proto__'' \<Longrightarrow> draft_set obj k v = Inr (obj_define obj k v)"
  by (simp add: draft_set_def obj_define_def)

lemma draft_set_string: "\<exists>obj'. draft_set obj k (JStr v) = Inr obj'"
  by (simp add: draft_set_def is_object_or_null_def)

lemma draft_set_cases:
  assumes "draft_set obj k v = Inr obj'"
  shows "(k = ''__proto__'' \<and> obj' = obj) \<or> (k \<noteq> ''__proto__'' \<and> obj' = obj_define obj k v)"
  using assms by (auto simp: draft_set_def obj_define_def split: if_splits)

lemma wf_obj_draft_set: "wf_obj obj \<Longrightarrow> draft_set obj k v = Inr obj' \<Longrightarrow> wf_obj obj'"
  using draft_set_cases [of obj k v obj'] by (auto simp: wf_obj_define)

lemma own_keys_define_mono:
  "h \<in> set (own_keys obj) \<Longrightarrow> h \<in> set (own_keys (obj_define obj k v))"
  by (auto simp: obj_define_def)

lemma own_keys_define_new: "k \<in> set (own_keys (obj_define obj k v))"
  by (auto simp: obj_define_def has_own_def)

lemma own_keys_draft_set_mono:
  "draft_set obj k v = Inr obj' \<Longrightarrow> h \<in> set (own_keys obj) \<Longrightarrow> h \<in> set (own_keys obj')"
  using draft_set_cases [of obj k v obj'] by (auto simp: own_keys_define_mono)

lemma assign_all_define:
  "''__proto__'' \<notin> f ` set xs \<Longrightarrow>
   assign_all f g acc xs = Inr (foldl (\<lambda>s x. obj_define s (f x) (g x)) acc xs)"
  by (induction xs arbitrary: acc) (auto simp: draft_set_define)

lemma wf_obj_assign_all:
  "wf_obj acc \<Longrightarrow> assign_all f g acc xs = Inr obj' \<Longrightarrow> wf_obj obj'"
  by (induction xs arbitrary: acc) (auto split: sum.splits dest: wf_obj_draft_set)

lemma own_keys_assign_all:
  "assign_all f g acc xs = Inr obj' \<Longrightarrow>
   h \<in> set (own_keys acc) \<or> (h \<in> f ` set xs \<and> h \<noteq> ''__proto__'') \<Longrightarrow>
   h \<in> set (own_keys obj')"
proof (induction xs arbitrary: acc)
  case Nil
  then show ?case by simp
next
  case (Cons x xs)
  from Cons.prems(1) obtain acc1 where step: "draft_set acc (f x) (g x) = Inr acc1"
    and rest: "assign_all f g acc1 xs = Inr obj'"
    by (auto split: sum.splits)
  from Cons.prems(2) step
  have "h \<in> set (own_keys acc1) \<or> (h \<in> f ` set xs \<and> h \<noteq> ''__proto__'')"
    using own_keys_draft_set_mono [OF step, of h] draft_set_cases [OF step]
      own_keys_define_new [of "f x" acc "g x"]
    by auto
  from Cons.IH [OF rest this] show ?case .
qed

lemma plain_set_define:
  "k \<noteq> ''__proto__'' \<Longrightarrow> plain_set (obj, a) k v = (obj_define obj k v, a)"
  by (simp add: plain_set_def obj_define_def)

lemma foldl_plain_set_define:
  "''__proto__'' \<notin> set xs \<Longrightarrow>
   foldl (\<lambda>s x. plain_set s x (g x)) (acc, a) xs =
     (foldl (\<lambda>s x. obj_define s x (g x)) acc xs, a)"
  by (induction xs arbitrary: acc) (auto simp: plain_set_define)

subsection \<open>Renaming a key\<close>

lemma renameKey_wf_unfold:
  "wf_obj sec \<Longrightarrow>
   renameKey sec k newKey =
     assign_all (\<lambda>key_i. if key_i = k then newKey else key_i) (obj_get sec) [] (own_keys sec)"
proof -
  assume "wf_obj sec"
  then have "obj_spread sec = sec" by (rule obj_spread_wf)
  moreover have "foldl obj_delete sec (own_keys sec) = []"
    by (simp add: foldl_obj_delete own_keys_def)
  ultimately show ?thesis by (simp add: renameKey_def Let_def)
qed

lemma renameKey_exact:
  assumes "wf_obj sec" "wf_obj (rename_entries sec k newKey)"
    and "''__proto__'' \<notin> set (own_keys (rename_entries sec k newKey))"
  shows "renameKey sec k newKey = Inr (rename_entries sec k newKey)"
proof -
  let ?f = "\<lambda>x. if x = k then newKey else x"
  have entries: "map (\<lambda>x. (?f x, obj_get sec x)) (own_keys sec) = rename_entries sec k newKey"
    using assms(1) entries_by_keys [of sec ?f] by (simp add: wf_obj_def rename_entries_def)
  have proto: "''__proto__'' \<notin> ?f ` set (own_keys sec)"
    using assms(3) by (auto simp: rename_entries_def own_keys_def)
  from assms(2) entries
  have "foldl (\<lambda>s x. obj_define s (?f x) (obj_get sec x)) [] (own_keys sec) =
        [] @ map (\<lambda>x. (?f x, obj_get sec x)) (own_keys sec)"
    by (intro foldl_define_keys_wf) simp
  with entries show ?thesis
    using renameKey_wf_unfold [OF assms(1), of k newKey] assign_all_define [OF proto]
    by simp
qed

lemma wf_obj_renameKey: "wf_obj sec \<Longrightarrow> renameKey sec k newKey = Inr obj' \<Longrightarrow> wf_obj obj'"
  using wf_obj_assign_all [of "[]"] by (simp add: renameKey_wf_unfold)

lemma own_keys_filter:
  "own_keys (filter (\<lambda>p. Q (fst p)) obj) = filter Q (own_keys obj)"
  by (induction obj) (auto simp: own_keys_def)

lemma filter_obj_update:
  "filter (\<lambda>p. Q (fst p)) (obj_update obj k v) =
     (if Q k then obj_update (filter (\<lambda>p. Q (fst p)) obj) k v else filter (\<lambda>p. Q (fst p)) obj)"
  by (induction obj k v rule: obj_update.induct) auto

lemma filter_obj_insert_other:
  "\<not> Q k \<Longrightarrow> filter (\<lambda>p. Q (fst p)) (obj_insert obj k v) = filter (\<lambda>p. Q (fst p)) obj"
  by (induction obj k v rule: obj_insert.induct) auto

lemma filter_obj_insert:
  assumes "sorted_wrt key_before (own_keys obj)"
  shows "filter (\<lambda>p. Q (fst p)) (obj_insert obj k v) =
     (if Q k then obj_insert (filter (\<lambda>p. Q (fst p)) obj) k v else filter (\<lambda>p. Q (fst p)) obj)"
proof (cases "Q k")
  case True
  have "sorted_wrt key_before (own_keys (filter (\<lambda>p. Q (fst p)) obj))"
    using assms by (simp add: own_keys_filter sorted_wrt_filter)
  then show ?thesis
    using assms True by (auto simp: obj_insert_split conj_commute intro: filter_cong)
next
  case False
  then show ?thesis by (simp add: filter_obj_insert_other)
qed

lemma filter_obj_define:
  assumes "sorted_wrt key_before (own_keys obj)"
  shows "filter (\<lambda>p. Q (fst p)) (obj_define obj k v) =
     (if Q k then obj_define (filter (\<lambda>p. Q (fst p)) obj) k v else filter (\<lambda>p. Q (fst p)) obj)"
  using filter_obj_insert [OF assms, of Q k v]
  by (auto simp: obj_define_def has_own_def own_keys_def filter_obj_update)

lemma foldl_define_others:
  fixes k newKey :: string and g :: "string \<Rightarrow> jvalue"
  defines "P \<equiv> \<lambda>x. x \<noteq> k \<and> x \<noteq> newKey"
  assumes "wf_obj acc"
    and "wf_obj (filter (\<lambda>p. P (fst p)) acc @ map (\<lambda>x. (x, g x)) (filter P xs))"
  shows "filter (\<lambda>p. P (fst p))
           (foldl (\<lambda>s x. obj_define s (if x = k then newKey else x) (g x)) acc xs) =
         filter (\<lambda>p. P (fst p)) acc @ map (\<lambda>x. (x, g x)) (filter P xs)"
  using assms(2-)
proof (induction xs arbitrary: acc)
  case Nil
  then show ?case by simp
next
  case (Cons x xs)
  let ?y = "if x = k then newKey else x"
  let ?acc1 = "obj_define acc ?y (g x)"
  have wf1: "wf_obj ?acc1" using Cons.prems(1) by (rule wf_obj_define)
  have sorted: "sorted_wrt key_before (own_keys acc)" using Cons.prems(1) by (simp add: wf_obj_def)
  show ?case
  proof (cases "P x")
    case True
    then have y: "?y = x" by (simp add: P_def)
    let ?F = "filter (\<lambda>p. P (fst p)) acc"
    from Cons.prems(2) True have wfF: "wf_obj (?F @ (x, g x) # map (\<lambda>x. (x, g x)) (filter P xs))"
      by simp
    then have "x \<notin> set (own_keys ?F)" "\<forall>k' \<in> set (own_keys ?F). key_before k' x"
      using wf_obj_snoc_before by blast+
    then have "obj_define ?F x (g x) = ?F @ [(x, g x)]"
      by (simp add: obj_define_def has_own_def obj_insert_snoc)
    with True y have f1: "filter (\<lambda>p. P (fst p)) ?acc1 = ?F @ [(x, g x)]"
      using filter_obj_define [OF sorted, of P x "g x"] by simp
    from wfF f1 have "wf_obj (filter (\<lambda>p. P (fst p)) ?acc1 @ map (\<lambda>x. (x, g x)) (filter P xs))"
      by simp
    then have "filter (\<lambda>p. P (fst p))
           (foldl (\<lambda>s x. obj_define s (if x = k then newKey else x) (g x)) ?acc1 xs) =
         filter (\<lambda>p. P (fst p)) ?acc1 @ map (\<lambda>x. (x, g x)) (filter P xs)"
      using Cons.IH [OF wf1] by blast
    with f1 True show ?thesis by simp
  next
    case False
    then have "\<not> P ?y" by (auto simp: P_def)
    then have f1: "filter (\<lambda>p. P (fst p)) ?acc1 = filter (\<lambda>p. P (fst p)) acc"
      using filter_obj_define [OF sorted, of P ?y "g x"] by simp
    with Cons.prems False
    have "wf_obj (filter (\<lambda>p. P (fst p)) ?acc1 @ map (\<lambda>x. (x, g x)) (filter P xs))"
      by simp
    then have "filter (\<lambda>p. P (fst p))
           (foldl (\<lambda>s x. obj_define s (if x = k then newKey else x) (g x)) ?acc1 xs) =
         filter (\<lambda>p. P (fst p)) ?acc1 @ map (\<lambda>x. (x, g x)) (filter P xs)"
      using Cons.IH [OF wf1] by blast
    with f1 False show ?thesis by simp
  qed
qed

text \<open>
  Without the key \<^verbatim>\<open>__proto__\<close>, neither in the secret nor as the new key, a renaming
  returns, and the entries under the other keys are as before.
\<close>

lemma renameKey_others:
  assumes "wf_obj sec" and "''__proto__'' \<notin> set (own_keys sec)" and "newKey \<noteq> ''__proto__''"
  shows "\<exists>obj'. renameKey sec k newKey = Inr obj' \<and>
           filter (\<lambda>p. fst p \<noteq> k \<and> fst p \<noteq> newKey) obj' =
           filter (\<lambda>p. fst p \<noteq> k \<and> fst p \<noteq> newKey) sec"
proof -
  let ?P = "\<lambda>x. x \<noteq> k \<and> x \<noteq> newKey"
  let ?f = "\<lambda>x. if x = k then newKey else x"
  have d: "distinct (own_keys sec)" using assms(1) by (simp add: wf_obj_def)
  have entries: "map (\<lambda>x. (x, obj_get sec x)) (filter ?P (own_keys sec)) =
                 filter (\<lambda>p. ?P (fst p)) sec"
  proof -
    have "map (\<lambda>x. (x, obj_get sec x)) (filter ?P (own_keys sec)) =
          filter (\<lambda>p. ?P (fst p)) (map (\<lambda>x. (x, obj_get sec x)) (own_keys sec))"
      by (simp add: filter_map comp_def)
    also have "map (\<lambda>x. (x, obj_get sec x)) (own_keys sec) = sec"
      using entries_by_keys [OF d, of "\<lambda>x. x"] by simp
    finally show ?thesis .
  qed
  have "wf_obj (filter (\<lambda>p. ?P (fst p)) sec)"
    using assms(1) own_keys_filter [of ?P sec]
    by (simp add: wf_obj_def sorted_wrt_filter)
  with entries have "wf_obj (filter (\<lambda>p. ?P (fst p)) [] @
                       map (\<lambda>x. (x, obj_get sec x)) (filter ?P (own_keys sec)))"
    by simp
  then have "filter (\<lambda>p. ?P (fst p))
           (foldl (\<lambda>s x. obj_define s (if x = k then newKey else x) (obj_get sec x)) []
              (own_keys sec)) =
         filter (\<lambda>p. ?P (fst p)) [] @ map (\<lambda>x. (x, obj_get sec x)) (filter ?P (own_keys sec))"
    by (intro foldl_define_others) simp_all
  moreover have "''__proto__'' \<notin> ?f ` set (own_keys sec)"
    using assms(2,3) by auto
  then have "renameKey sec k newKey =
      Inr (foldl (\<lambda>s x. obj_define s (?f x) (obj_get sec x)) [] (own_keys sec))"
    using renameKey_wf_unfold [OF assms(1), of k newKey] by (simp add: assign_all_define)
  ultimately show ?thesis using entries by simp
qed

lemma obj_update_rename_entries:
  "k \<in> set (own_keys obj) \<Longrightarrow> distinct (own_keys (rename_entries obj k newKey)) \<Longrightarrow>
   obj_update (rename_entries obj k newKey) newKey v = rename_entries (obj_update obj k v) k newKey"
proof (induction obj)
  case Nil
  then show ?case by (simp add: own_keys_def)
next
  case (Cons p obj)
  obtain x w where p: "p = (x, w)" by (cases p)
  show ?case
  proof (cases "x = k")
    case True
    with p show ?thesis by (simp add: rename_entries_def)
  next
    case False
    with Cons.prems(1) p have kin: "k \<in> set (own_keys obj)" by (simp add: own_keys_def)
    then have "newKey \<in> set (own_keys (rename_entries obj k newKey))"
      by (force simp: own_keys_def rename_entries_def)
    with Cons.prems(2) p False have "x \<noteq> newKey"
      by (auto simp: own_keys_def rename_entries_def)
    moreover from Cons.prems(2) p have "distinct (own_keys (rename_entries obj k newKey))"
      by (simp add: own_keys_def rename_entries_def)
    ultimately show ?thesis using Cons.IH [OF kin] p False
      by (simp add: rename_entries_def)
  qed
qed

lemma has_own_rename_entries:
  "k \<in> set (own_keys obj) \<Longrightarrow> newKey \<in> set (own_keys (rename_entries obj k newKey))"
  by (force simp: own_keys_def rename_entries_def)

lemma wf_obj_rename_entries:
  assumes "wf_obj obj" "array_index k = None" "array_index newKey = None"
    and "newKey \<notin> set (own_keys obj) \<or> newKey = k"
  shows "wf_obj (rename_entries obj k newKey)"
proof -
  let ?f = "\<lambda>x. if x = k then newKey else x"
  have keys: "own_keys (rename_entries obj k newKey) = map ?f (own_keys obj)"
    by (simp add: own_keys_def rename_entries_def comp_def)
  have idx: "array_index (?f x) = array_index x" for x
    using assms(2,3) by simp
  have "key_before (?f a) (?f b) = key_before a b" for a b
    unfolding key_before_def idx ..
  then have "sorted_wrt key_before (map ?f (own_keys obj)) = sorted_wrt key_before (own_keys obj)"
    by (simp add: sorted_wrt_map)
  moreover have "inj_on ?f (set (own_keys obj))"
    using assms(4) by (auto simp: inj_on_def)
  ultimately show ?thesis
    using assms(1) unfolding wf_obj_def keys by (simp add: distinct_map)
qed

section \<open>Editing the secret\<close>

lemma reducer_edit_secret:
  assumes "secretWithMetadata st = Some swm"
  shows "shown_secret (reducer now (Some st) (EditSecretStarted params)) =
           (case edited_secret (secret swm) params of Inl e \<Rightarrow> None | Inr sec' \<Rightarrow> Some sec')"
  using assms
  by (simp add: reducer_def editSecretStarted_def shown_secret_def split: sum.splits)

text \<open>
  C1, as the code has it. In a state with a loaded secret, each of the four edits of the
  secret leaves the entries under the other keys as they were, values and relative order:
  the keys other than \<open>k\<close> for \<^verbatim>\<open>addOrOverwriteKeyValue\<close> and \<^verbatim>\<open>removeKeyValue\<close>, the keys
  other than \<open>k\<close> and \<open>newKey\<close> for the two renamings, provided the secret has no own key
  \<^verbatim>\<open>__proto__\<close> and \<open>newKey\<close> is not \<^verbatim>\<open>__proto__\<close>. Renaming a key \<open>k\<close> of the secret puts
  \<open>newKey\<close> at the place of \<open>k\<close>, with the value of \<open>k\<close> (\<^verbatim>\<open>renameKey\<close>) or with the new value
  (\<^verbatim>\<open>renameKeyAndUpdateValue\<close>), and every other entry stays where it is, provided the
  renamed entries still form an object: \<open>newKey\<close> is not another key of the secret, the
  keys are still in the order the language gives them (as they are when neither \<open>k\<close> nor
  \<open>newKey\<close> is an array index, lemma \<open>wf_obj_rename_entries\<close>), and no key is \<^verbatim>\<open>__proto__\<close>.
\<close>

theorem edits_keep_other_entries:
  fixes st :: "'r secretsEditorState"
  assumes "secretWithMetadata st = Some swm" and "wf_obj (secret swm)"
  shows "(\<exists>s1. shown_secret (reducer now (Some st)
                  (EditSecretStarted \<lparr>key = k, action = AddOrOverwriteKeyValue v\<rparr>)) = Some s1 \<and>
               entries_except [k] s1 = entries_except [k] (secret swm)) \<and>
         (\<exists>s1. shown_secret (reducer now (Some st)
                  (EditSecretStarted \<lparr>key = k, action = RemoveKeyValue\<rparr>)) = Some s1 \<and>
               entries_except [k] s1 = entries_except [k] (secret swm)) \<and>
         (''__proto__'' \<notin> set (own_keys (secret swm)) \<and> newKey \<noteq> ''__proto__'' \<longrightarrow>
            (\<exists>s1. shown_secret (reducer now (Some st)
                     (EditSecretStarted \<lparr>key = k, action = RenameKey newKey\<rparr>)) = Some s1 \<and>
                  entries_except [k, newKey] s1 = entries_except [k, newKey] (secret swm)) \<and>
            (\<exists>s1. shown_secret (reducer now (Some st)
                     (EditSecretStarted \<lparr>key = k, action = RenameKeyAndUpdateValue newKey v\<rparr>))
                     = Some s1 \<and>
                  entries_except [k, newKey] s1 = entries_except [k, newKey] (secret swm))) \<and>
         (k \<in> set (own_keys (secret swm)) \<and> wf_obj (rename_entries (secret swm) k newKey) \<and>
          ''__proto__'' \<notin> set (own_keys (rename_entries (secret swm) k newKey)) \<longrightarrow>
            shown_secret (reducer now (Some st)
              (EditSecretStarted \<lparr>key = k, action = RenameKey newKey\<rparr>))
              = Some (rename_entries (secret swm) k newKey) \<and>
            shown_secret (reducer now (Some st)
              (EditSecretStarted \<lparr>key = k, action = RenameKeyAndUpdateValue newKey v\<rparr>))
              = Some (rename_entries (obj_update (secret swm) k (JStr v)) k newKey))"
proof -
  let ?s = "secret swm"
  have sorted: "sorted_wrt key_before (own_keys ?s)" using assms(2) by (simp add: wf_obj_def)
  have add: "\<exists>s1. edited_secret ?s \<lparr>key = k, action = AddOrOverwriteKeyValue v\<rparr> = Inr s1 \<and>
                entries_except [k] s1 = entries_except [k] ?s"
  proof (cases "k = ''__proto__''")
    case True
    then show ?thesis by (simp add: edited_secret_def draft_set_def is_object_or_null_def)
  next
    case False
    then show ?thesis
      using filter_obj_define [OF sorted, of "\<lambda>x. x \<notin> set [k]" k "JStr v"]
      by (simp add: edited_secret_def draft_set_define entries_except_def)
  qed
  have del: "edited_secret ?s \<lparr>key = k, action = RemoveKeyValue\<rparr> = Inr (obj_delete ?s k)"
    and del': "entries_except [k] (obj_delete ?s k) = entries_except [k] ?s"
    by (simp_all add: edited_secret_def entries_except_def obj_delete_def)
  have ren: "\<exists>s1. edited_secret ?s \<lparr>key = k, action = RenameKey newKey\<rparr> = Inr s1 \<and>
                entries_except [k, newKey] s1 = entries_except [k, newKey] ?s"
    and renupd: "\<exists>s1. edited_secret ?s \<lparr>key = k, action = RenameKeyAndUpdateValue newKey v\<rparr>
                    = Inr s1 \<and>
                entries_except [k, newKey] s1 = entries_except [k, newKey] ?s"
    if h: "''__proto__'' \<notin> set (own_keys ?s)" "newKey \<noteq> ''__proto__''"
  proof -
    from renameKey_others [OF assms(2) h, of k]
    obtain r where r: "renameKey ?s k newKey = Inr r"
      and others: "entries_except [k, newKey] r = entries_except [k, newKey] ?s"
      by (auto simp: entries_except_def)
    then show "\<exists>s1. edited_secret ?s \<lparr>key = k, action = RenameKey newKey\<rparr> = Inr s1 \<and>
                entries_except [k, newKey] s1 = entries_except [k, newKey] ?s"
      by (simp add: edited_secret_def)
    have "sorted_wrt key_before (own_keys r)"
      using wf_obj_renameKey [OF assms(2) r] by (simp add: wf_obj_def)
    then have "entries_except [k, newKey] (obj_define r newKey (JStr v)) =
               entries_except [k, newKey] r"
      using filter_obj_define [of r "\<lambda>x. x \<notin> set [k, newKey]" newKey "JStr v"]
      by (simp add: entries_except_def)
    with r others h(2)
    show "\<exists>s1. edited_secret ?s \<lparr>key = k, action = RenameKeyAndUpdateValue newKey v\<rparr>
                    = Inr s1 \<and>
                entries_except [k, newKey] s1 = entries_except [k, newKey] ?s"
      by (simp add: edited_secret_def draft_set_define)
  qed
  have exact: "edited_secret ?s \<lparr>key = k, action = RenameKey newKey\<rparr> =
                 Inr (rename_entries ?s k newKey)"
    and exactupd: "edited_secret ?s \<lparr>key = k, action = RenameKeyAndUpdateValue newKey v\<rparr> =
                   Inr (rename_entries (obj_update ?s k (JStr v)) k newKey)"
    if h: "k \<in> set (own_keys ?s)" "wf_obj (rename_entries ?s k newKey)"
       "''__proto__'' \<notin> set (own_keys (rename_entries ?s k newKey))"
  proof -
    have e: "renameKey ?s k newKey = Inr (rename_entries ?s k newKey)"
      using renameKey_exact [OF assms(2) h(2) h(3)] .
    then show "edited_secret ?s \<lparr>key = k, action = RenameKey newKey\<rparr> =
                 Inr (rename_entries ?s k newKey)"
      by (simp add: edited_secret_def)
    have own: "has_own (rename_entries ?s k newKey) newKey"
      using has_own_rename_entries [OF h(1)] by (simp add: has_own_def)
    with h(3) have "newKey \<noteq> ''__proto__''" by (auto simp: has_own_def)
    with own have "draft_set (rename_entries ?s k newKey) newKey (JStr v) =
               Inr (obj_update (rename_entries ?s k newKey) newKey (JStr v))"
      by (simp add: draft_set_def)
    also have "obj_update (rename_entries ?s k newKey) newKey (JStr v) =
               rename_entries (obj_update ?s k (JStr v)) k newKey"
      using obj_update_rename_entries [OF h(1)] h(2) by (simp add: wf_obj_def)
    finally show "edited_secret ?s \<lparr>key = k, action = RenameKeyAndUpdateValue newKey v\<rparr> =
                   Inr (rename_entries (obj_update ?s k (JStr v)) k newKey)"
      using e by (simp add: edited_secret_def)
  qed
  show ?thesis
    unfolding reducer_edit_secret [OF assms(1)]
  proof (intro conjI impI)
    show "\<exists>s1. (case edited_secret ?s \<lparr>key = k, action = AddOrOverwriteKeyValue v\<rparr> of
                  Inl e \<Rightarrow> None | Inr sec' \<Rightarrow> Some sec') = Some s1 \<and>
               entries_except [k] s1 = entries_except [k] ?s"
      using add by auto
    show "\<exists>s1. (case edited_secret ?s \<lparr>key = k, action = RemoveKeyValue\<rparr> of
                  Inl e \<Rightarrow> None | Inr sec' \<Rightarrow> Some sec') = Some s1 \<and>
               entries_except [k] s1 = entries_except [k] ?s"
      using del del' by simp
  next
    assume "''__proto__'' \<notin> set (own_keys ?s) \<and> newKey \<noteq> ''__proto__''"
    then have h: "''__proto__'' \<notin> set (own_keys ?s)" "newKey \<noteq> ''__proto__''" by simp_all
    show "\<exists>s1. (case edited_secret ?s \<lparr>key = k, action = RenameKey newKey\<rparr> of
                  Inl e \<Rightarrow> None | Inr sec' \<Rightarrow> Some sec') = Some s1 \<and>
               entries_except [k, newKey] s1 = entries_except [k, newKey] ?s"
      using ren [OF h] by auto
    show "\<exists>s1. (case edited_secret ?s \<lparr>key = k, action = RenameKeyAndUpdateValue newKey v\<rparr> of
                  Inl e \<Rightarrow> None | Inr sec' \<Rightarrow> Some sec') = Some s1 \<and>
               entries_except [k, newKey] s1 = entries_except [k, newKey] ?s"
      using renupd [OF h] by auto
  next
    assume "k \<in> set (own_keys ?s) \<and> wf_obj (rename_entries ?s k newKey) \<and>
            ''__proto__'' \<notin> set (own_keys (rename_entries ?s k newKey))"
    then have h: "k \<in> set (own_keys ?s)" "wf_obj (rename_entries ?s k newKey)"
      "''__proto__'' \<notin> set (own_keys (rename_entries ?s k newKey))" by simp_all
    show "(case edited_secret ?s \<lparr>key = k, action = RenameKey newKey\<rparr> of
             Inl e \<Rightarrow> None | Inr sec' \<Rightarrow> Some sec') = Some (rename_entries ?s k newKey)"
      using exact [OF h] by simp
    show "(case edited_secret ?s \<lparr>key = k, action = RenameKeyAndUpdateValue newKey v\<rparr> of
             Inl e \<Rightarrow> None | Inr sec' \<Rightarrow> Some sec') =
          Some (rename_entries (obj_update ?s k (JStr v)) k newKey)"
      using exactupd [OF h] by simp
  qed
qed

theorem edits_keep_other_entries_witness:
  "secretWithMetadata example_state = Some example_swm \<and> wf_obj (secret example_swm) \<and>
   ''__proto__'' \<notin> set (own_keys (secret example_swm)) \<and> ''login'' \<noteq> ''__proto__'' \<and>
   ''user'' \<in> set (own_keys (secret example_swm)) \<and>
   wf_obj (rename_entries (secret example_swm) ''user'' ''login'') \<and>
   ''__proto__'' \<notin> set (own_keys (rename_entries (secret example_swm) ''user'' ''login'')) \<and>
   (\<exists>s1. shown_secret (reducer ''now'' (Some example_state)
            (EditSecretStarted \<lparr>key = ''user'', action = AddOrOverwriteKeyValue ''root''\<rparr>)) = Some s1 \<and>
          entries_except [''user''] s1 = entries_except [''user''] (secret example_swm)) \<and>
   (\<exists>s1. shown_secret (reducer ''now'' (Some example_state)
            (EditSecretStarted \<lparr>key = ''user'', action = RemoveKeyValue\<rparr>)) = Some s1 \<and>
          entries_except [''user''] s1 = entries_except [''user''] (secret example_swm)) \<and>
   (\<exists>s1. shown_secret (reducer ''now'' (Some example_state)
            (EditSecretStarted \<lparr>key = ''user'', action = RenameKey ''login''\<rparr>)) = Some s1 \<and>
          entries_except [''user'', ''login''] s1 =
          entries_except [''user'', ''login''] (secret example_swm)) \<and>
   shown_secret (reducer ''now'' (Some example_state)
     (EditSecretStarted \<lparr>key = ''user'', action = RenameKey ''login''\<rparr>))
     = Some (rename_entries (secret example_swm) ''user'' ''login'') \<and>
   shown_secret (reducer ''now'' (Some example_state)
     (EditSecretStarted \<lparr>key = ''user'', action = RenameKeyAndUpdateValue ''login'' ''root''\<rparr>))
     = Some (rename_entries (obj_update (secret example_swm) ''user'' (JStr ''root'')) ''user'' ''login'') \<and>
   rename_entries (secret example_swm) ''user'' ''login''
     = [(''login'', JStr ''admin''), (''password'', JStr ''hunter2'')]"
proof -
  have loaded: "secretWithMetadata example_state = Some example_swm"
    by (simp add: example_state_def)
  have wf: "wf_obj (secret example_swm)" by code_simp
  have h1: "''__proto__'' \<notin> set (own_keys (secret example_swm))" by code_simp
  have h0: "''login'' \<noteq> ''__proto__''" by simp
  have h2: "''user'' \<in> set (own_keys (secret example_swm))" by code_simp
  have h3: "wf_obj (rename_entries (secret example_swm) ''user'' ''login'')" by code_simp
  have h4: "''__proto__'' \<notin> set (own_keys (rename_entries (secret example_swm) ''user'' ''login''))"
    by code_simp
  have v: "rename_entries (secret example_swm) ''user'' ''login''
     = [(''login'', JStr ''admin''), (''password'', JStr ''hunter2'')]" by code_simp
  from edits_keep_other_entries [OF loaded wf, of "''now''" "''user''" "''root''" "''login''"]
    loaded wf h0 h1 h2 h3 h4 v
  show ?thesis by blast
qed

text \<open>
  C1 as stated fails. Renaming \<^verbatim>\<open>a\<close> to the existing key \<^verbatim>\<open>b\<close> in \<^verbatim>\<open>{ b: "2", a: "1" }\<close> leaves
  \<^verbatim>\<open>{ b: "1" }\<close>: the other key \<^verbatim>\<open>b\<close> has lost its value. Renaming \<^verbatim>\<open>a\<close> to \<^verbatim>\<open>7\<close> puts the new
  key in front of \<^verbatim>\<open>b\<close>, since an array index comes before every other key. Renaming \<^verbatim>\<open>a\<close>
  to \<^verbatim>\<open>__proto__\<close> drops the entry.
\<close>

theorem rename_counterexample:
  "wf_obj (secret colliding_swm) \<and>
   shown_secret (reducer ''now'' (Some colliding_state)
     (EditSecretStarted \<lparr>key = ''a'', action = RenameKey ''b''\<rparr>)) = Some [(''b'', JStr ''1'')] \<and>
   shown_secret (reducer ''now'' (Some colliding_state)
     (EditSecretStarted \<lparr>key = ''a'', action = RenameKey ''7''\<rparr>))
     = Some [(''7'', JStr ''1''), (''b'', JStr ''2'')] \<and>
   shown_secret (reducer ''now'' (Some colliding_state)
     (EditSecretStarted \<lparr>key = ''a'', action = RenameKey ''__proto__''\<rparr>))
     = Some [(''b'', JStr ''2'')]"
  by code_simp

section \<open>The hidden keys and the declared keys\<close>

lemma own_keys_renameKey:
  assumes "wf_obj sec" "renameKey sec k newKey = Inr obj'"
    and "h \<in> set (own_keys sec)" "h \<noteq> k" "h \<noteq> ''__proto__''"
  shows "h \<in> set (own_keys obj')"
proof -
  let ?f = "\<lambda>x. if x = k then newKey else x"
  from assms(3-5) have "h \<in> ?f ` set (own_keys sec) \<and> h \<noteq> ''__proto__''" by force
  moreover from assms(1,2)
  have "assign_all ?f (obj_get sec) [] (own_keys sec) = Inr obj'"
    by (simp add: renameKey_wf_unfold)
  ultimately show ?thesis using own_keys_assign_all by blast
qed

lemma edited_secret_keeps_key:
  assumes "wf_obj sec" and "edited_secret sec p = Inr sec'" and "h \<in> set (own_keys sec)"
    and "case action p of
           RemoveKeyValue \<Rightarrow> h \<noteq> key p
         | RenameKey _ \<Rightarrow> h \<noteq> key p \<and> h \<noteq> ''__proto__''
         | RenameKeyAndUpdateValue _ _ \<Rightarrow> h \<noteq> key p \<and> h \<noteq> ''__proto__''
         | _ \<Rightarrow> True"
  shows "h \<in> set (own_keys sec')"
proof (cases "action p")
  case (AddOrOverwriteKeyValue v)
  with assms(2,3) show ?thesis
    by (auto simp: edited_secret_def dest: own_keys_draft_set_mono)
next
  case (RenameKey newKey)
  with assms show ?thesis
    by (auto simp: edited_secret_def intro: own_keys_renameKey)
next
  case (RenameKeyAndUpdateValue newKey newValue)
  with assms(2) obtain r where r: "renameKey sec (key p) newKey = Inr r"
    and s: "draft_set r newKey (JStr newValue) = Inr sec'"
    by (auto simp: edited_secret_def split: sum.splits)
  from assms(1,3,4) r RenameKeyAndUpdateValue have "h \<in> set (own_keys r)"
    by (auto intro: own_keys_renameKey)
  with s show ?thesis by (rule own_keys_draft_set_mono)
next
  case RemoveKeyValue
  with assms(2-4) show ?thesis by (auto simp: edited_secret_def own_keys_delete)
next
  case (HideOrRevealKey t)
  with assms(2,3) show ?thesis by (simp add: edited_secret_def)
qed

text \<open>
  C2, as the code has it. The reducers do not keep the hidden keys among the keys that the
  secret declares in every reachable state; they keep them there along the actions of
  \<open>keeps_hidden_declared\<close>. After \<^verbatim>\<open>openStarted\<close> no key is hidden. \<^verbatim>\<open>openCompleted\<close> keeps the
  property when its payload has it. \<^verbatim>\<open>editSecretCompleted\<close>, \<^verbatim>\<open>addOrOverwriteKeyValue\<close> and
  revealing a key always keep it, hiding a key keeps it when the secret declares the key,
  and removing or renaming a key keeps it when that key is not hidden (and, for a
  renaming, \<^verbatim>\<open>__proto__\<close> is not hidden).
\<close>

theorem hidden_keys_declared_kept:
  fixes s :: "'r secretsEditorState option"
  assumes "hidden_keys_declared s" and "keeps_hidden_declared s a"
    and "wf_state s"
    and "reducer now s a = Inr s'"
  shows "hidden_keys_declared s'"
proof (cases a)
  case (OpenStarted dp bn)
  with assms(4) show ?thesis by (auto simp: reducer_def openStarted_def hidden_keys_declared_def)
next
  case (OpenCompleted swm hk)
  with assms(2,4) show ?thesis
    by (auto simp: reducer_def openCompleted_def hidden_keys_declared_def
        keeps_hidden_declared_def split: option.splits)
next
  case EditSecretCompleted
  with assms(1,4) show ?thesis
    by (auto simp: reducer_def editSecretCompleted_def hidden_keys_declared_def
        split: option.splits)
next
  case (EditSecretStarted p)
  with assms(4) obtain st swm sec' where s: "s = Some st"
    and swm: "secretWithMetadata st = Some swm"
    and edited: "edited_secret (secret swm) p = Inr sec'"
    and s': "s' = Some (st\<lparr>secretWithMetadata := Some (swm\<lparr>secret := sec'\<rparr>),
                          hiddenKeys := edited_hiddenKeys (hiddenKeys st) p,
                          isBeingUpdated := True\<rparr>)"
    by (auto simp: reducer_def editSecretStarted_def split: option.splits sum.splits)
  from assms(1) s swm have decl: "\<forall>h \<in> set (hiddenKeys st). h \<in> set (own_keys (secret swm))"
    by (simp add: hidden_keys_declared_def list_all_iff has_own_def)
  from assms(3) s swm have wf: "wf_obj (secret swm)"
    by (simp add: wf_state_def getSecretAndHiddenKeys_def)
  from assms(2) EditSecretStarted s swm
  have keep: "case action p of
                  AddOrOverwriteKeyValue _ \<Rightarrow> True
                | RemoveKeyValue \<Rightarrow> key p \<notin> set (hiddenKeys st)
                | RenameKey _ \<Rightarrow> key p \<notin> set (hiddenKeys st) \<and> ''__proto__'' \<notin> set (hiddenKeys st)
                | RenameKeyAndUpdateValue _ _ \<Rightarrow>
                    key p \<notin> set (hiddenKeys st) \<and> ''__proto__'' \<notin> set (hiddenKeys st)
                | HideOrRevealKey Hide \<Rightarrow> has_own (secret swm) (key p)
                | HideOrRevealKey Reveal \<Rightarrow> True"
    by (simp add: keeps_hidden_declared_def getSecretAndHiddenKeys_def)
  have old: "h \<in> set (own_keys sec')" if "h \<in> set (hiddenKeys st)" for h
  proof -
    from that decl have "h \<in> set (own_keys (secret swm))" by blast
    moreover from that keep
    have "case action p of
           RemoveKeyValue \<Rightarrow> h \<noteq> key p
         | RenameKey _ \<Rightarrow> h \<noteq> key p \<and> h \<noteq> ''__proto__''
         | RenameKeyAndUpdateValue _ _ \<Rightarrow> h \<noteq> key p \<and> h \<noteq> ''__proto__''
         | _ \<Rightarrow> True"
      by (auto split: edit_action.splits)
    ultimately show ?thesis using edited_secret_keeps_key [OF wf edited] by blast
  qed
  have "h \<in> set (own_keys sec')" if "h \<in> set (edited_hiddenKeys (hiddenKeys st) p)" for h
  proof (cases "action p")
    case (HideOrRevealKey t)
    with edited have same: "sec' = secret swm" by (simp add: edited_secret_def)
    show ?thesis
    proof (cases t)
      case Hide
      with HideOrRevealKey keep that same decl show ?thesis
        by (auto simp: edited_hiddenKeys_def has_own_def)
    next
      case Reveal
      with HideOrRevealKey that old show ?thesis
        by (auto simp: edited_hiddenKeys_def)
    qed
  qed (use that old in \<open>auto simp: edited_hiddenKeys_def\<close>)
  with s' show ?thesis
    by (simp add: hidden_keys_declared_def list_all_iff has_own_def)
qed

theorem hidden_keys_declared_kept_witness:
  "hidden_keys_declared (Some example_state) \<and>
   keeps_hidden_declared (Some example_state)
     (EditSecretStarted \<lparr>key = ''user'', action = RenameKey ''login''\<rparr>) \<and>
   wf_state (Some example_state) \<and>
   reducer ''now'' (Some example_state)
     (EditSecretStarted \<lparr>key = ''user'', action = RenameKey ''login''\<rparr>)
   = Inr (Some (example_state
           \<lparr>secretWithMetadata := Some (example_swm
              \<lparr>secret := [(''login'', JStr ''admin''), (''password'', JStr ''hunter2'')]\<rparr>),
             isBeingUpdated := True\<rparr>)) \<and>
   hidden_keys_declared
     (Some (example_state
           \<lparr>secretWithMetadata := Some (example_swm
              \<lparr>secret := [(''login'', JStr ''admin''), (''password'', JStr ''hunter2'')]\<rparr>),
             isBeingUpdated := True\<rparr>))"
proof -
  have inv: "hidden_keys_declared (Some example_state)" by code_simp
  have keep: "keeps_hidden_declared (Some example_state)
     (EditSecretStarted \<lparr>key = ''user'', action = RenameKey ''login''\<rparr>)" by code_simp
  have wf: "wf_state (Some example_state)" by code_simp
  have step: "reducer ''now'' (Some example_state)
     (EditSecretStarted \<lparr>key = ''user'', action = RenameKey ''login''\<rparr>)
   = Inr (Some (example_state
           \<lparr>secretWithMetadata := Some (example_swm
              \<lparr>secret := [(''login'', JStr ''admin''), (''password'', JStr ''hunter2'')]\<rparr>),
             isBeingUpdated := True\<rparr>))" by code_simp
  from hidden_keys_declared_kept [OF inv keep wf step] wf inv keep step
  show ?thesis by blast
qed

text \<open>
  C2 as stated fails: open the example secret with its password hidden, then remove the
  key \<^verbatim>\<open>password\<close>. The key stays in \<^verbatim>\<open>hiddenKeys\<close> and the secret declares it no more.
\<close>

theorem hidden_keys_declared_counterexample:
  "run ''now'' None
     [OpenStarted ''/project'' ''db'', OpenCompleted example_swm [''password''],
      EditSecretStarted \<lparr>key = ''password'', action = RemoveKeyValue\<rparr>]
   = Inr (Some \<lparr>dirPath = ''/project'', basename = ''db'',
                 secretWithMetadata = Some (example_swm\<lparr>secret := [(''user'', JStr ''admin'')]\<rparr>),
                 hiddenKeys = [''password''], isBeingUpdated = True\<rparr>) \<and>
   \<not> hidden_keys_declared
       (Some \<lparr>dirPath = ''/project'', basename = ''db'',
              secretWithMetadata = Some (example_swm\<lparr>secret := [(''user'', JStr ''admin'')]\<rparr>),
              hiddenKeys = [''password''], isBeingUpdated = True\<rparr>)"
  by code_simp

section \<open>Hiding and revealing keys\<close>

text \<open>
  C6. In a state with a loaded secret, \<^verbatim>\<open>editSecretStarted\<close> with \<^verbatim>\<open>hideOrRevealKey\<close> of
  type \<^verbatim>\<open>"hide"\<close> adds the key to the set of hidden keys and leaves the secret with its
  metadata, hence the value of every key, as it was. Since the hidden keys are read as a
  set, hiding a key that is already hidden leaves that set unchanged.
\<close>

theorem hide_adds_key_keeps_secret:
  fixes st :: "'r secretsEditorState"
  assumes "secretWithMetadata st = Some swm"
  shows "\<exists>st'. reducer now (Some st) (EditSecretStarted \<lparr>key = k, action = HideOrRevealKey Hide\<rparr>)
             = Inr (Some st') \<and>
           set (hiddenKeys st') = insert k (set (hiddenKeys st)) \<and>
           (k \<in> set (hiddenKeys st) \<longrightarrow> set (hiddenKeys st') = set (hiddenKeys st)) \<and>
           secretWithMetadata st' = Some swm"
  using assms
  by (auto simp: reducer_def editSecretStarted_def edited_secret_def edited_hiddenKeys_def)

theorem hide_adds_key_keeps_secret_witness:
  "secretWithMetadata example_state = Some example_swm \<and>
   (\<exists>st'. reducer ''now'' (Some example_state)
            (EditSecretStarted \<lparr>key = ''user'', action = HideOrRevealKey Hide\<rparr>) = Inr (Some st') \<and>
          set (hiddenKeys st') = insert ''user'' (set (hiddenKeys example_state)) \<and>
          (''user'' \<in> set (hiddenKeys example_state) \<longrightarrow>
             set (hiddenKeys st') = set (hiddenKeys example_state)) \<and>
          secretWithMetadata st' = Some example_swm)"
proof -
  have loaded: "secretWithMetadata example_state = Some example_swm"
    by (simp add: example_state_def)
  from hide_adds_key_keeps_secret [OF loaded, of "''now''" "''user''"] loaded
  show ?thesis by blast
qed

text \<open>
  C9. In a state with a loaded secret, \<^verbatim>\<open>"reveal"\<close> removes every occurrence of the key from
  \<^verbatim>\<open>hiddenKeys\<close> and keeps the other entries in their order, so that revealing twice is
  revealing once; \<^verbatim>\<open>"hide"\<close> appends the key whether it is hidden already or not, so that
  hiding a hidden key leaves a duplicate, and hiding twice is not hiding once.
\<close>

theorem reveal_filters_hide_appends:
  fixes st :: "'r secretsEditorState"
  assumes "secretWithMetadata st = Some swm"
  shows "\<exists>st1 st2 st3.
           reducer now (Some st) (EditSecretStarted \<lparr>key = k, action = HideOrRevealKey Reveal\<rparr>)
             = Inr (Some st1) \<and>
           hiddenKeys st1 = filter (\<lambda>x. x \<noteq> k) (hiddenKeys st) \<and>
           k \<notin> set (hiddenKeys st1) \<and>
           reducer now (Some st1) (EditSecretStarted \<lparr>key = k, action = HideOrRevealKey Reveal\<rparr>)
             = Inr (Some st1) \<and>
           reducer now (Some st) (EditSecretStarted \<lparr>key = k, action = HideOrRevealKey Hide\<rparr>)
             = Inr (Some st2) \<and>
           hiddenKeys st2 = hiddenKeys st @ [k] \<and>
           (k \<in> set (hiddenKeys st) \<longrightarrow> \<not> distinct (hiddenKeys st2)) \<and>
           reducer now (Some st2) (EditSecretStarted \<lparr>key = k, action = HideOrRevealKey Hide\<rparr>)
             = Inr (Some st3) \<and>
           hiddenKeys st3 = hiddenKeys st @ [k, k] \<and>
           hiddenKeys st3 \<noteq> hiddenKeys st2"
  using assms
  by (auto simp: reducer_def editSecretStarted_def edited_secret_def edited_hiddenKeys_def)

theorem reveal_filters_hide_appends_witness:
  "secretWithMetadata example_state = Some example_swm \<and>
   (\<exists>st1 st2 st3.
      reducer ''now'' (Some example_state)
        (EditSecretStarted \<lparr>key = ''password'', action = HideOrRevealKey Reveal\<rparr>) = Inr (Some st1) \<and>
      hiddenKeys st1 = filter (\<lambda>x. x \<noteq> ''password'') (hiddenKeys example_state) \<and>
      ''password'' \<notin> set (hiddenKeys st1) \<and>
      reducer ''now'' (Some st1)
        (EditSecretStarted \<lparr>key = ''password'', action = HideOrRevealKey Reveal\<rparr>) = Inr (Some st1) \<and>
      reducer ''now'' (Some example_state)
        (EditSecretStarted \<lparr>key = ''password'', action = HideOrRevealKey Hide\<rparr>) = Inr (Some st2) \<and>
      hiddenKeys st2 = hiddenKeys example_state @ [''password''] \<and>
      (''password'' \<in> set (hiddenKeys example_state) \<longrightarrow> \<not> distinct (hiddenKeys st2)) \<and>
      reducer ''now'' (Some st2)
        (EditSecretStarted \<lparr>key = ''password'', action = HideOrRevealKey Hide\<rparr>) = Inr (Some st3) \<and>
      hiddenKeys st3 = hiddenKeys example_state @ [''password'', ''password''] \<and>
      hiddenKeys st3 \<noteq> hiddenKeys st2)"
proof -
  have loaded: "secretWithMetadata example_state = Some example_swm"
    by (simp add: example_state_def)
  from reveal_filters_hide_appends [OF loaded, of "''now''" "''password''"] loaded
  show ?thesis by blast
qed

section \<open>Completing an edit\<close>

lemma round_to_double_exact:
  assumes "- 9007199254740992 < n" and "n \<le> 9007199254740992"
  shows "round_to_double n = n"
proof (cases "n = 9007199254740992")
  case True
  have "round_to_double 9007199254740992 = 9007199254740992" by code_simp
  with True show ?thesis by simp
next
  case False
  with assms have "nat \<bar>n\<bar> < 9007199254740992" by simp
  then have "ulp_exp (nat \<bar>n\<bar>) = 0" by (simp add: ulp_exp.simps)
  then show ?thesis by (simp add: round_to_double_def)
qed

lemma js_increment_exact:
  "- 9007199254740992 \<le> v \<Longrightarrow> v < 9007199254740992 \<Longrightarrow> js_increment v = v + 1"
  by (simp add: js_increment_def round_to_double_exact)

text \<open>
  C8, as the code has it. In a state with a loaded secret whose version is an integer
  from \<open>-2\<^sup>5\<^sup>3\<close> up to, and not including, \<open>2\<^sup>5\<^sup>3\<close>, \<^verbatim>\<open>editSecretCompleted\<close> adds one to
  the version of the metadata, sets \<^verbatim>\<open>created_time\<close> to the current time and
  \<^verbatim>\<open>isBeingUpdated\<close> to false, and changes nothing else: the rest of the metadata, the
  secret, the hidden keys, \<^verbatim>\<open>dirPath\<close> and \<^verbatim>\<open>basename\<close> are as before.
\<close>

theorem editSecretCompleted_frame:
  fixes st :: "'r secretsEditorState"
  assumes "secretWithMetadata st = Some swm"
    and "- 9007199254740992 \<le> version (metadata swm)"
    and "version (metadata swm) < 9007199254740992"
  shows "\<exists>st' swm'. reducer now (Some st) EditSecretCompleted = Inr (Some st') \<and>
           secretWithMetadata st' = Some swm' \<and>
           version (metadata swm') = version (metadata swm) + 1 \<and>
           created_time (metadata swm') = now \<and>
           rest (metadata swm') = rest (metadata swm) \<and>
           isBeingUpdated st' = False \<and>
           secret swm' = secret swm \<and>
           hiddenKeys st' = hiddenKeys st \<and>
           dirPath st' = dirPath st \<and>
           basename st' = basename st"
  using assms by (simp add: reducer_def editSecretCompleted_def js_increment_exact)

theorem editSecretCompleted_frame_witness:
  "secretWithMetadata example_state = Some example_swm \<and>
   - 9007199254740992 \<le> version (metadata example_swm) \<and>
   version (metadata example_swm) < 9007199254740992 \<and>
   (\<exists>st' swm'. reducer ''2021-06-01T12:00:00.000Z'' (Some example_state) EditSecretCompleted
                 = Inr (Some st') \<and>
      secretWithMetadata st' = Some swm' \<and>
      version (metadata swm') = version (metadata example_swm) + 1 \<and>
      created_time (metadata swm') = ''2021-06-01T12:00:00.000Z'' \<and>
      rest (metadata swm') = rest (metadata example_swm) \<and>
      isBeingUpdated st' = False \<and>
      secret swm' = secret example_swm \<and>
      hiddenKeys st' = hiddenKeys example_state \<and>
      dirPath st' = dirPath example_state \<and>
      basename st' = basename example_state)"
proof -
  have loaded: "secretWithMetadata example_state = Some example_swm"
    by (simp add: example_state_def)
  have lo: "- 9007199254740992 \<le> version (metadata example_swm)"
    and hi: "version (metadata example_swm) < 9007199254740992"
    by (simp_all add: example_swm_def)
  from editSecretCompleted_frame [OF loaded lo hi, of "''2021-06-01T12:00:00.000Z''"] loaded lo hi
  show ?thesis by blast
qed

text \<open>
  C8 as stated fails at the version \<open>2\<^sup>5\<^sup>3\<close>: adding one gives a number that has no
  representation, the result is rounded back, and the version stays what it was.
\<close>

theorem editSecretCompleted_counterexample:
  "map_option (\<lambda>swm. version (metadata swm)) (secretWithMetadata aged_state)
     = Some 9007199254740992 \<and>
   map_option (\<lambda>swm. version (metadata swm))
     (case reducer ''2021-06-01T12:00:00.000Z'' (Some aged_state) EditSecretCompleted of
        Inr (Some st') \<Rightarrow> secretWithMetadata st'
      | _ \<Rightarrow> None)
     = Some 9007199254740992"
  by code_simp

section \<open>Persisting an edit\<close>

lemma wf_obj_edited_secret:
  assumes "wf_obj sec" and "edited_secret sec p = Inr sec'"
  shows "wf_obj sec'"
proof (cases "action p")
  case (AddOrOverwriteKeyValue v)
  with assms show ?thesis by (auto simp: edited_secret_def dest: wf_obj_draft_set)
next
  case (RenameKey newKey)
  with assms show ?thesis by (auto simp: edited_secret_def dest: wf_obj_renameKey)
next
  case (RenameKeyAndUpdateValue newKey newValue)
  with assms show ?thesis
    by (auto simp: edited_secret_def split: sum.splits dest: wf_obj_renameKey wf_obj_draft_set)
next
  case RemoveKeyValue
  with assms show ?thesis by (auto simp: edited_secret_def wf_obj_delete)
next
  case (HideOrRevealKey t)
  with assms show ?thesis by (simp add: edited_secret_def)
qed

lemma wf_state_editSecretStarted:
  assumes "wf_state state" "editSecretStarted state params = Inr state1"
  shows "wf_state state1"
  using assms wf_obj_edited_secret
  by (auto simp: editSecretStarted_def wf_state_def getSecretAndHiddenKeys_def
      split: option.splits sum.splits)

text \<open>The reducer throws on a loaded secret only when an assignment of a renaming does.\<close>

lemma edited_secret_throws:
  assumes "edited_secret sec p = Inl e"
  shows "e = ImmerError \<and>
         (case action p of
            RenameKey _ \<Rightarrow> True
          | RenameKeyAndUpdateValue _ _ \<Rightarrow> True
          | _ \<Rightarrow> False)"
proof -
  have step: "e' = ImmerError" if "draft_set obj k v = Inl e'" for obj k v e'
    using that by (auto simp: draft_set_def split: if_splits)
  have all: "e' = ImmerError" if "assign_all f g obj xs = Inl e'" for f g obj xs e'
    using that by (induction xs arbitrary: obj) (auto split: sum.splits dest: step)
  show ?thesis
  proof (cases "action p")
    case (AddOrOverwriteKeyValue v)
    with assms show ?thesis
      by (simp add: edited_secret_def draft_set_def is_object_or_null_def split: if_splits)
  next
    case (RenameKey newKey)
    with assms show ?thesis by (auto simp: edited_secret_def renameKey_def Let_def dest: all)
  next
    case (RenameKeyAndUpdateValue newKey newValue)
    with assms show ?thesis
      by (auto simp: edited_secret_def renameKey_def Let_def split: sum.splits dest: all step)
  qed (use assms in \<open>simp_all add: edited_secret_def\<close>)
qed

lemma array_index_extraKey: "array_index extraKey = None"
  by (simp add: extraKey_def array_index_def is_digit_def)

lemma put_payload_wf:
  assumes "wf_obj sec"
  shows "put_payload sec hk =
           (if has_own sec extraKey then obj_update sec extraKey (extraValue hk (own_keys sec))
            else sec @ [(extraKey, extraValue hk (own_keys sec))])"
proof -
  have "\<forall>k' \<in> set (own_keys sec). key_before k' extraKey"
    by (simp add: key_before_not_index array_index_extraKey)
  then show ?thesis
    using assms by (simp add: put_payload_def obj_spread_wf obj_define_def obj_insert_snoc)
qed

lemma map_of_obj_update:
  "k \<in> set (own_keys obj) \<Longrightarrow> map_of (obj_update obj k v) k = Some v"
  by (induction obj k v rule: obj_update.induct) (auto simp: own_keys_def)

lemma obj_get_put_payload:
  assumes "wf_obj sec"
  shows "obj_get (put_payload sec hk) extraKey = extraValue hk (own_keys sec)"
proof (cases "has_own sec extraKey")
  case True
  then show ?thesis
    using assms by (simp add: put_payload_wf obj_get_def map_of_obj_update has_own_def)
next
  case False
  then have "map_of sec extraKey = None"
    by (simp add: has_own_def own_keys_def map_of_eq_None_iff)
  with False show ?thesis
    using assms by (simp add: put_payload_wf obj_get_def map_add_def)
qed

lemma entries_except_put_payload:
  assumes "wf_obj sec"
  shows "entries_except [extraKey] (put_payload sec hk) = entries_except [extraKey] sec"
  using assms filter_obj_update [of "\<lambda>x. x \<notin> set [extraKey]" sec extraKey]
  by (simp add: put_payload_wf entries_except_def)

lemma edit_put_called:
  assumes "editCurrentlyShownSecret put path now state params = (state', trace, thrown)"
    and "PutCalled p payload \<in> set trace"
  shows "\<exists>state1 sec1 hk1.
           editSecretStarted state params = Inr state1 \<and>
           getSecretAndHiddenKeys state1 = Inr (sec1, hk1) \<and>
           p = path \<and> payload = put_payload sec1 hk1"
  using assms
  by (auto simp: editCurrentlyShownSecret_def Let_def
      split: sum.splits prod.splits if_splits option.splits)

text \<open>
  C3, as the code has it. Whenever \<^verbatim>\<open>editCurrentlyShownSecret\<close> calls \<^verbatim>\<open>put\<close>, it is at the
  current path and the payload is the current secret, the one the edit has produced, with
  the entry under \<^verbatim>\<open>.onyxia\<close> set to the record of the current \<^verbatim>\<open>hiddenKeys\<close> and of the
  keys of the current secret in their order. Every other entry of the payload is an entry
  of the secret, with its value and in its order. When the secret has no own key
  \<^verbatim>\<open>.onyxia\<close> the entry is one more entry, the last one; when it has one, the value of that
  entry is replaced where it stands and the payload has no entry more than the secret.
\<close>

theorem put_payload_carries_bookkeeping:
  fixes state :: "'r secretsEditorState option"
  assumes "wf_state state"
    and "editCurrentlyShownSecret put path now state params = (state', trace, thrown)"
    and "PutCalled p payload \<in> set trace"
  shows "\<exists>state1 sec1 hk1.
           editSecretStarted state params = Inr state1 \<and>
           getSecretAndHiddenKeys state1 = Inr (sec1, hk1) \<and>
           p = path \<and>
           obj_get payload extraKey = extraValue hk1 (own_keys sec1) \<and>
           entries_except [extraKey] payload = entries_except [extraKey] sec1 \<and>
           payload =
             (if has_own sec1 extraKey
              then obj_update sec1 extraKey (extraValue hk1 (own_keys sec1))
              else sec1 @ [(extraKey, extraValue hk1 (own_keys sec1))])"
proof -
  from edit_put_called [OF assms(2,3)]
  obtain state1 sec1 hk1 where
    started: "editSecretStarted state params = Inr state1"
    and got: "getSecretAndHiddenKeys state1 = Inr (sec1, hk1)"
    and p: "p = path" and payload: "payload = put_payload sec1 hk1"
    by blast
  from wf_state_editSecretStarted [OF assms(1) started] got have wf: "wf_obj sec1"
    by (simp add: wf_state_def)
  show ?thesis
    using started got p payload obj_get_put_payload [OF wf, of hk1]
      entries_except_put_payload [OF wf, of hk1] put_payload_wf [OF wf, of hk1]
    by simp
qed

theorem put_payload_carries_bookkeeping_witness:
  "wf_state (Some example_state) \<and>
   editCurrentlyShownSecret accepting_put ''/project/db'' ''now'' (Some example_state)
     \<lparr>key = ''port'', action = AddOrOverwriteKeyValue ''5432''\<rparr>
   = (Some (example_state
            \<lparr>secretWithMetadata :=
               Some \<lparr>metadata = \<lparr>created_time = ''now'', version = 2, rest = ()\<rparr>,
                     secret = [(''user'', JStr ''admin''), (''password'', JStr ''hunter2''),
                               (''port'', JStr ''5432'')]\<rparr>\<rparr>),
      [Dispatch (EditSecretStarted \<lparr>key = ''port'', action = AddOrOverwriteKeyValue ''5432''\<rparr>),
       PutCalled ''/project/db''
         [(''user'', JStr ''admin''), (''password'', JStr ''hunter2''), (''port'', JStr ''5432''),
          (''.onyxia'', extraValue [''password''] [''user'', ''password'', ''port''])],
       Dispatch EditSecretCompleted],
      None) \<and>
   (\<exists>state1 sec1 hk1.
      editSecretStarted (Some example_state)
        \<lparr>key = ''port'', action = AddOrOverwriteKeyValue ''5432''\<rparr> = Inr state1 \<and>
      getSecretAndHiddenKeys state1 = Inr (sec1, hk1) \<and>
      obj_get [(''user'', JStr ''admin''), (''password'', JStr ''hunter2''), (''port'', JStr ''5432''),
               (''.onyxia'', extraValue [''password''] [''user'', ''password'', ''port''])] extraKey
        = extraValue hk1 (own_keys sec1) \<and>
      [(''user'', JStr ''admin''), (''password'', JStr ''hunter2''), (''port'', JStr ''5432''),
       (''.onyxia'', extraValue [''password''] [''user'', ''password'', ''port''])] =
        (if has_own sec1 extraKey
         then obj_update sec1 extraKey (extraValue hk1 (own_keys sec1))
         else sec1 @ [(extraKey, extraValue hk1 (own_keys sec1))]))"
proof -
  have wf: "wf_state (Some example_state)" by code_simp
  have run: "editCurrentlyShownSecret accepting_put ''/project/db'' ''now'' (Some example_state)
     \<lparr>key = ''port'', action = AddOrOverwriteKeyValue ''5432''\<rparr>
   = (Some (example_state
            \<lparr>secretWithMetadata :=
               Some \<lparr>metadata = \<lparr>created_time = ''now'', version = 2, rest = ()\<rparr>,
                     secret = [(''user'', JStr ''admin''), (''password'', JStr ''hunter2''),
                               (''port'', JStr ''5432'')]\<rparr>\<rparr>),
      [Dispatch (EditSecretStarted \<lparr>key = ''port'', action = AddOrOverwriteKeyValue ''5432''\<rparr>),
       PutCalled ''/project/db''
         [(''user'', JStr ''admin''), (''password'', JStr ''hunter2''), (''port'', JStr ''5432''),
          (''.onyxia'', extraValue [''password''] [''user'', ''password'', ''port''])],
       Dispatch EditSecretCompleted],
      None)"
    by code_simp
  have mem: "PutCalled ''/project/db''
             [(''user'', JStr ''admin''), (''password'', JStr ''hunter2''), (''port'', JStr ''5432''),
              (''.onyxia'', extraValue [''password''] [''user'', ''password'', ''port''])]
        \<in> set [Dispatch (EditSecretStarted \<lparr>key = ''port'', action = AddOrOverwriteKeyValue ''5432''\<rparr>),
           PutCalled ''/project/db''
             [(''user'', JStr ''admin''), (''password'', JStr ''hunter2''), (''port'', JStr ''5432''),
              (''.onyxia'', extraValue [''password''] [''user'', ''password'', ''port''])],
           Dispatch EditSecretCompleted]"
    by simp
  from put_payload_carries_bookkeeping [OF wf run mem] wf run
  show ?thesis by blast
qed

text \<open>
  C3 as stated fails when the secret has a key \<^verbatim>\<open>.onyxia\<close> of its own, here the key that the
  edit itself adds: the current secret has three entries and so has the payload, in which
  the value \<^verbatim>\<open>"x"\<close> has given way to the bookkeeping record.
\<close>

theorem put_payload_counterexample:
  "shown_secret (editSecretStarted (Some example_state)
     \<lparr>key = ''.onyxia'', action = AddOrOverwriteKeyValue ''x''\<rparr>)
   = Some [(''user'', JStr ''admin''), (''password'', JStr ''hunter2''), (''.onyxia'', JStr ''x'')] \<and>
   fst (snd (editCurrentlyShownSecret accepting_put ''/project/db'' ''now'' (Some example_state)
     \<lparr>key = ''.onyxia'', action = AddOrOverwriteKeyValue ''x''\<rparr>))
   = [Dispatch (EditSecretStarted \<lparr>key = ''.onyxia'', action = AddOrOverwriteKeyValue ''x''\<rparr>),
      PutCalled ''/project/db''
        [(''user'', JStr ''admin''), (''password'', JStr ''hunter2''),
         (''.onyxia'', extraValue [''password''] [''user'', ''password'', ''.onyxia''])],
      Dispatch EditSecretCompleted]"
  by code_simp

lemma nothing_to_do_iff:
  "nothing_to_do sec params =
     (case action params of
        AddOrOverwriteKeyValue v \<Rightarrow> map_of sec (key params) = Some (JStr v)
      | RenameKey newKey \<Rightarrow> key params = newKey
      | RenameKeyAndUpdateValue newKey newValue \<Rightarrow>
          key params = newKey \<and> map_of sec (key params) = Some (JStr newValue)
      | RemoveKeyValue \<Rightarrow>
          \<not> has_own sec (key params) \<and> key params \<notin> set object_prototype_names
      | HideOrRevealKey _ \<Rightarrow> False)"
  by (auto simp: nothing_to_do_def obj_get_def in_op_def
      split: edit_action.splits option.splits)

text \<open>
  C7, as the code has it. While a secret is shown, \<^verbatim>\<open>editCurrentlyShownSecret\<close> returns at
  once, with no dispatch and no call of the store, when the edit would change nothing:
  a value that is stored already under the key, a renaming to the same key, a renaming to
  the same key with the stored value, the removal of a key for which \<^verbatim>\<open>key in secret\<close> is
  false (neither a key of the secret nor a name that every object inherits). In every
  other case it dispatches \<^verbatim>\<open>editSecretStarted\<close>. When the reducer throws, the thunk throws
  with no state changed and no call of the store. When the reducer returns, the thunk
  calls \<^verbatim>\<open>put\<close> exactly once, at the current path and with the payload of the state so
  obtained, and dispatches \<^verbatim>\<open>editSecretCompleted\<close> when the call has succeeded; when the
  call has failed it dispatches nothing more.
\<close>

theorem edit_puts_once_unless_nothing_to_do:
  fixes state :: "'r secretsEditorState option" and put :: "string \<Rightarrow> jsobj \<Rightarrow> 'c js_error option"
  assumes "getSecretAndHiddenKeys state = Inr (sec, hk)"
  shows "nothing_to_do sec params =
           (case action params of
              AddOrOverwriteKeyValue v \<Rightarrow> map_of sec (key params) = Some (JStr v)
            | RenameKey newKey \<Rightarrow> key params = newKey
            | RenameKeyAndUpdateValue newKey newValue \<Rightarrow>
                key params = newKey \<and> map_of sec (key params) = Some (JStr newValue)
            | RemoveKeyValue \<Rightarrow>
                \<not> has_own sec (key params) \<and> key params \<notin> set object_prototype_names
            | HideOrRevealKey _ \<Rightarrow> False) \<and>
         (nothing_to_do sec params \<longrightarrow>
            editCurrentlyShownSecret put path now state params = (state, [], None)) \<and>
         (\<not> nothing_to_do sec params \<longrightarrow>
            (case editSecretStarted state params of
               Inl e \<Rightarrow> editCurrentlyShownSecret put path now state params = (state, [], Some e)
             | Inr state1 \<Rightarrow>
                 (\<exists>sec1 hk1 state2.
                    getSecretAndHiddenKeys state1 = Inr (sec1, hk1) \<and>
                    editSecretCompleted now state1 = Inr state2 \<and>
                    editCurrentlyShownSecret put path now state params =
                      (case put path (put_payload sec1 hk1) of
                         None \<Rightarrow>
                           (state2,
                            [Dispatch (EditSecretStarted params),
                             PutCalled path (put_payload sec1 hk1),
                             Dispatch EditSecretCompleted],
                            None)
                       | Some err \<Rightarrow>
                           (state1,
                            [Dispatch (EditSecretStarted params),
                             PutCalled path (put_payload sec1 hk1)],
                            Some TypeError)))))"
proof (intro conjI impI)
  show "nothing_to_do sec params =
           (case action params of
              AddOrOverwriteKeyValue v \<Rightarrow> map_of sec (key params) = Some (JStr v)
            | RenameKey newKey \<Rightarrow> key params = newKey
            | RenameKeyAndUpdateValue newKey newValue \<Rightarrow>
                key params = newKey \<and> map_of sec (key params) = Some (JStr newValue)
            | RemoveKeyValue \<Rightarrow>
                \<not> has_own sec (key params) \<and> key params \<notin> set object_prototype_names
            | HideOrRevealKey _ \<Rightarrow> False)"
    by (rule nothing_to_do_iff)
next
  assume "nothing_to_do sec params"
  with assms show "editCurrentlyShownSecret put path now state params = (state, [], None)"
    by (simp add: editCurrentlyShownSecret_def)
next
  assume todo: "\<not> nothing_to_do sec params"
  show "case editSecretStarted state params of
          Inl e \<Rightarrow> editCurrentlyShownSecret put path now state params = (state, [], Some e)
        | Inr state1 \<Rightarrow>
            (\<exists>sec1 hk1 state2.
               getSecretAndHiddenKeys state1 = Inr (sec1, hk1) \<and>
               editSecretCompleted now state1 = Inr state2 \<and>
               editCurrentlyShownSecret put path now state params =
                 (case put path (put_payload sec1 hk1) of
                    None \<Rightarrow>
                      (state2,
                       [Dispatch (EditSecretStarted params),
                        PutCalled path (put_payload sec1 hk1),
                        Dispatch EditSecretCompleted],
                       None)
                  | Some err \<Rightarrow>
                      (state1,
                       [Dispatch (EditSecretStarted params),
                        PutCalled path (put_payload sec1 hk1)],
                       Some TypeError)))"
  proof (cases "editSecretStarted state params")
    case (Inl e)
    with assms todo show ?thesis by (simp add: editCurrentlyShownSecret_def)
  next
    case (Inr state1)
    then obtain st1 swm1 where s1: "state1 = Some st1" "secretWithMetadata st1 = Some swm1"
      by (auto simp: editSecretStarted_def split: option.splits sum.splits)
    then have g1: "getSecretAndHiddenKeys state1 = Inr (secret swm1, hiddenKeys st1)"
      by (simp add: getSecretAndHiddenKeys_def)
    from s1 obtain state2 where c: "editSecretCompleted now state1 = Inr state2"
      by (auto simp: editSecretCompleted_def)
    from assms todo Inr g1 c show ?thesis
      by (auto simp: editCurrentlyShownSecret_def Let_def split: option.splits)
  qed
qed

theorem edit_puts_once_unless_nothing_to_do_witness:
  "getSecretAndHiddenKeys (Some example_state) = Inr (secret example_swm, [''password'']) \<and>
   nothing_to_do (secret example_swm) \<lparr>key = ''user'', action = AddOrOverwriteKeyValue ''admin''\<rparr> \<and>
   editCurrentlyShownSecret accepting_put ''/project/db'' ''now'' (Some example_state)
     \<lparr>key = ''user'', action = AddOrOverwriteKeyValue ''admin''\<rparr>
     = (Some example_state, [], None) \<and>
   \<not> nothing_to_do (secret example_swm) \<lparr>key = ''user'', action = AddOrOverwriteKeyValue ''root''\<rparr> \<and>
   (case editSecretStarted (Some example_state)
           \<lparr>key = ''user'', action = AddOrOverwriteKeyValue ''root''\<rparr> of
      Inl e \<Rightarrow>
        editCurrentlyShownSecret accepting_put ''/project/db'' ''now'' (Some example_state)
          \<lparr>key = ''user'', action = AddOrOverwriteKeyValue ''root''\<rparr>
          = (Some example_state, [], Some e)
    | Inr state1 \<Rightarrow>
        (\<exists>sec1 hk1 state2.
           getSecretAndHiddenKeys state1 = Inr (sec1, hk1) \<and>
           editSecretCompleted ''now'' state1 = Inr state2 \<and>
           editCurrentlyShownSecret accepting_put ''/project/db'' ''now'' (Some example_state)
             \<lparr>key = ''user'', action = AddOrOverwriteKeyValue ''root''\<rparr> =
             (case accepting_put ''/project/db'' (put_payload sec1 hk1) of
                None \<Rightarrow>
                  (state2,
                   [Dispatch (EditSecretStarted
                      \<lparr>key = ''user'', action = AddOrOverwriteKeyValue ''root''\<rparr>),
                    PutCalled ''/project/db'' (put_payload sec1 hk1),
                    Dispatch EditSecretCompleted],
                   None)
              | Some err \<Rightarrow>
                  (state1,
                   [Dispatch (EditSecretStarted
                      \<lparr>key = ''user'', action = AddOrOverwriteKeyValue ''root''\<rparr>),
                    PutCalled ''/project/db'' (put_payload sec1 hk1)],
                   Some TypeError)))) \<and>
   editSecretStarted (Some example_state)
     \<lparr>key = ''user'', action = AddOrOverwriteKeyValue ''root''\<rparr>
     = Inr (Some (example_state
         \<lparr>secretWithMetadata :=
            Some (example_swm\<lparr>secret := [(''user'', JStr ''root''), (''password'', JStr ''hunter2'')]\<rparr>),
          isBeingUpdated := True\<rparr>))"
proof -
  have g: "getSecretAndHiddenKeys (Some example_state) = Inr (secret example_swm, [''password''])"
    by code_simp
  have n1: "nothing_to_do (secret example_swm)
              \<lparr>key = ''user'', action = AddOrOverwriteKeyValue ''admin''\<rparr>"
    by code_simp
  have n2: "\<not> nothing_to_do (secret example_swm)
              \<lparr>key = ''user'', action = AddOrOverwriteKeyValue ''root''\<rparr>"
    by code_simp
  have e: "editSecretStarted (Some example_state)
     \<lparr>key = ''user'', action = AddOrOverwriteKeyValue ''root''\<rparr>
     = Inr (Some (example_state
         \<lparr>secretWithMetadata :=
            Some (example_swm\<lparr>secret := [(''user'', JStr ''root''), (''password'', JStr ''hunter2'')]\<rparr>),
          isBeingUpdated := True\<rparr>))"
    by code_simp
  from edit_puts_once_unless_nothing_to_do
         [OF g, of "\<lparr>key = ''user'', action = AddOrOverwriteKeyValue ''admin''\<rparr>"
            accepting_put "''/project/db''" "''now''"]
       edit_puts_once_unless_nothing_to_do
         [OF g, of "\<lparr>key = ''user'', action = AddOrOverwriteKeyValue ''root''\<rparr>"
            accepting_put "''/project/db''" "''now''"]
       g n1 n2 e
  show ?thesis by blast
qed

text \<open>
  C7 as stated fails: writing the value that the key \<^verbatim>\<open>user\<close> has already changes no state
  and calls no store.
\<close>

theorem edit_without_put_counterexample:
  "editCurrentlyShownSecret accepting_put ''/project/db'' ''now'' (Some example_state)
     \<lparr>key = ''user'', action = AddOrOverwriteKeyValue ''admin''\<rparr>
   = (Some example_state, [], None)"
  by code_simp

text \<open>
  No call of the store either when the reducer throws: renaming the key \<^verbatim>\<open>tls\<close>, whose value
  is an object, to \<^verbatim>\<open>__proto__\<close>; and one call for the removal of \<^verbatim>\<open>toString\<close>, a name that
  the secret inherits and does not have.
\<close>

lemma edit_throws_example:
  "editCurrentlyShownSecret accepting_put ''/project/db'' ''now'' (Some nested_state)
     \<lparr>key = ''tls'', action = RenameKey ''__proto__''\<rparr>
   = (Some nested_state, [], Some ImmerError)"
  by code_simp

lemma remove_inherited_example:
  "fst (snd (editCurrentlyShownSecret accepting_put ''/project/db'' ''now'' (Some example_state)
     \<lparr>key = ''toString'', action = RemoveKeyValue\<rparr>))
   = [Dispatch (EditSecretStarted \<lparr>key = ''toString'', action = RemoveKeyValue\<rparr>),
      PutCalled ''/project/db'' (put_payload (secret example_swm) [''password'']),
      Dispatch EditSecretCompleted]"
  by code_simp

section \<open>Failures of the remote store\<close>

lemma openSecret_throws:
  "openSecret get secretPath state dp bn =
     (openStarted state dp bn, [Dispatch (OpenStarted dp bn), GetCalled secretPath],
      Some TypeError)"
  by (simp add: openSecret_def Let_def split: sum.splits)

lemma edit_failed_put_throws:
  assumes "editCurrentlyShownSecret put path now state params = (state', trace, thrown)"
    and "PutCalled p payload \<in> set trace" and "put p payload = Some err"
  shows "trace = [Dispatch (EditSecretStarted params), PutCalled p payload]"
    and "thrown = Some TypeError" and "editSecretStarted state params = Inr state'"
  using assms
  by (auto simp: editCurrentlyShownSecret_def Let_def
      split: sum.splits prod.splits if_splits option.splits)

text \<open>
  C5. The claim fails on every failure of the store. After a rejected \<^verbatim>\<open>get\<close>,
  \<^verbatim>\<open>openSecret\<close> calls \<^verbatim>\<open>actions.errorOcurred\<close>, and after a rejected \<^verbatim>\<open>put\<close> so does
  \<^verbatim>\<open>editCurrentlyShownSecret\<close>; the slice has no such action creator, the call throws a
  \<^verbatim>\<open>TypeError\<close>, and no error event is dispatched: the trace ends with the request.
\<close>

theorem failed_request_dispatches_no_error:
  "openSecret rejecting_get ''/project/db'' (Some example_state) ''/project'' ''db'' =
     (openStarted (Some example_state) ''/project'' ''db'',
      [Dispatch (OpenStarted ''/project'' ''db''), GetCalled ''/project/db''],
      Some TypeError) \<and>
   editCurrentlyShownSecret rejecting_put ''/project/db'' ''now'' (Some example_state)
     \<lparr>key = ''user'', action = HideOrRevealKey Hide\<rparr> =
     (Some (example_state\<lparr>hiddenKeys := [''password'', ''user''], isBeingUpdated := True\<rparr>),
      [Dispatch (EditSecretStarted \<lparr>key = ''user'', action = HideOrRevealKey Hide\<rparr>),
       PutCalled ''/project/db'' (put_payload (secret example_swm) [''password'', ''user''])],
      Some TypeError)"
  by code_simp

section \<open>Opening a stored secret\<close>

subsection \<open>The bookkeeping entry\<close>

lemma strings_of_JStr [simp]: "strings_of (JArr (map JStr xs)) = xs"
  by (induction xs) (auto simp: strings_of_def List.map_filter_def)

lemma is_string_array_JStr [simp]: "is_string_array (JArr (map JStr xs))"
  by (simp add: is_string_array_def list_all_iff is_JStr_def)

lemma not_inherited [simp]:
  "extraKey \<notin> set object_prototype_names"
  "''hiddenKeys'' \<notin> set object_prototype_names"
  "''keysOrdering'' \<notin> set object_prototype_names"
  by (simp_all add: extraKey_def object_prototype_names_def)

text \<open>
  A stored secret whose bookkeeping entry is absent or malformed is opened with no hidden
  key and with all its keys in their stored order; \<open>extract_extra\<close> has no other outcome
  than a pair of lists.
\<close>

lemma try_extract_malformed:
  "\<not> well_formed_extra sec \<Longrightarrow> \<exists>e. try_extract sec = Inl e"
  by (cases "obj_get sec extraKey")
     (auto simp: well_formed_extra_def try_extract_def read_extra_field_def is_string_array_def)

lemma extract_extra_fallback:
  "\<not> well_formed_extra sec \<Longrightarrow> extract_extra sec = ([], own_keys sec)"
  using try_extract_malformed [of sec] by (auto simp: extract_extra_def)

lemma extract_extra_well_formed:
  assumes "well_formed_extra sec"
  shows "\<exists>ps. obj_get sec extraKey = JObj ps \<and>
           extract_extra sec =
             (strings_of (obj_get ps ''hiddenKeys''),
              filter (\<lambda>k. in_op k sec) (strings_of (obj_get ps ''keysOrdering'')))"
  using assms
  by (cases "obj_get sec extraKey")
     (auto simp: well_formed_extra_def extract_extra_def try_extract_def read_extra_field_def)

text \<open>
  C10. The first half of the claim is \<open>extract_extra_fallback\<close>. The second half fails on
  a name that every object inherits: \<^verbatim>\<open>key in secret\<close> holds for \<^verbatim>\<open>toString\<close> although the
  stored secret has no such key, so the key stays in \<^verbatim>\<open>keysOrdering\<close>, and the secret that
  \<^verbatim>\<open>openSecret\<close> orders for display gets a key \<^verbatim>\<open>toString\<close> whose value is the function of
  \<^verbatim>\<open>Object.prototype\<close>.
\<close>

theorem keysOrdering_keeps_inherited_name:
  "wf_obj stale_secret \<and> well_formed_extra stale_secret \<and> \<not> has_own stale_secret ''toString'' \<and>
   extract_extra stale_secret = ([], [''toString'', ''a'']) \<and>
   reorder stale_secret [''toString'', ''a''] =
     [(''toString'', JBuiltin ''toString''), (''a'', JStr ''1'')]"
  by code_simp

subsection \<open>Writing a secret and opening it again\<close>

lemma extract_extra_stored:
  assumes "obj_get stored extraKey = extraValue h ks" "\<forall>k \<in> set ks. has_own stored k"
  shows "extract_extra stored = (h, ks)"
proof -
  have "filter (\<lambda>k. in_op k stored) ks = ks"
    using assms(2) by (simp add: in_op_def filter_id_conv)
  then show ?thesis
    using assms(1)
    by (simp add: extract_extra_def try_extract_def read_extra_field_def extraValue_def
        obj_get_def)
qed

lemma reorder_restores:
  assumes "wf_obj s" "\<not> has_own s extraKey" "\<not> has_own s ''__proto__''"
    and "wf_obj stored" "set stored = set (s @ [(extraKey, ev)])"
  shows "reorder stored (own_keys s) = s"
proof -
  have d: "distinct (own_keys s)" and ds: "distinct (own_keys stored)"
    using assms(1,4) by (simp_all add: wf_obj_def)
  have "filter (\<lambda>p. fst p \<notin> set (own_keys s)) (obj_delete stored extraKey) = []"
    using assms(5) by (auto simp: filter_empty_conv obj_delete_def own_keys_def)
  then have removed: "foldl obj_delete (obj_delete (obj_spread stored) extraKey) (own_keys s) = []"
    using assms(4) by (simp add: foldl_obj_delete obj_spread_wf)
  have same: "obj_get stored k = obj_get s k" if "k \<in> set (own_keys s)" for k
  proof -
    from that obtain v where v: "(k, v) \<in> set s" by (auto simp: own_keys_def)
    with assms(5) have "(k, v) \<in> set stored" by simp
    with v show ?thesis using obj_get_own [OF d] obj_get_own [OF ds] by simp
  qed
  have "map (\<lambda>x. (x, obj_get stored x)) (own_keys s) = map (\<lambda>x. (x, obj_get s x)) (own_keys s)"
    using same by simp
  also have "\<dots> = s" using entries_by_keys [OF d, of "\<lambda>x. x"] by simp
  finally have entries: "map (\<lambda>x. (x, obj_get stored x)) (own_keys s) = s" .
  with assms(1)
  have "foldl (\<lambda>o' x. obj_define o' x (obj_get stored x)) [] (own_keys s) =
        [] @ map (\<lambda>x. (x, obj_get stored x)) (own_keys s)"
    by (intro foldl_define_keys_wf) simp
  moreover have "''__proto__'' \<notin> set (own_keys s)"
    using assms(3) by (simp add: has_own_def)
  ultimately
  have "foldl (\<lambda>o' x. plain_set o' x (obj_get stored x)) ([], True) (own_keys s) = (s, True)"
    using entries by (simp add: foldl_plain_set_define)
  with removed show ?thesis by (simp add: reorder_def Let_def)
qed

lemma roundtrip_without_proto:
  assumes "wf_obj s" "\<not> has_own s extraKey" "\<not> has_own s ''__proto__''"
  shows "extract_extra (put_payload s h) = (h, own_keys s)"
    and "reorder (put_payload s h) (own_keys s) = s"
    and "navigationArgument \<lparr>metadata = m, secret = put_payload s h\<rparr> =
           (\<lparr>metadata = m, secret = s\<rparr>, h)"
proof -
  let ?ev = "extraValue h (own_keys s)"
  have payload: "put_payload s h = s @ [(extraKey, ?ev)]"
    using assms(1,2) by (simp add: put_payload_wf)
  have "\<forall>k' \<in> set (own_keys s). key_before k' extraKey"
    by (simp add: key_before_not_index array_index_extraKey)
  then have "obj_insert s extraKey ?ev = s @ [(extraKey, ?ev)]" by (rule obj_insert_snoc)
  with assms(1,2) have wfp: "wf_obj (put_payload s h)"
    using wf_obj_insert [of s extraKey ?ev] payload by (simp add: has_own_def)
  have "\<forall>k \<in> set (own_keys s). has_own (put_payload s h) k"
    by (simp add: payload has_own_def own_keys_def)
  then show e: "extract_extra (put_payload s h) = (h, own_keys s)"
    using obj_get_put_payload [OF assms(1), of h] by (intro extract_extra_stored) simp_all
  show r: "reorder (put_payload s h) (own_keys s) = s"
    using reorder_restores [OF assms(1-3) wfp] payload by simp
  show "navigationArgument \<lparr>metadata = m, secret = put_payload s h\<rparr> =
           (\<lparr>metadata = m, secret = s\<rparr>, h)"
    using e r by (simp add: navigationArgument_def)
qed

text \<open>
  C4. The payload that \<^verbatim>\<open>editCurrentlyShownSecret\<close> writes for a secret is opened as that
  secret, keys, values and order, with the same hidden keys, as long as no key of the
  secret is \<^verbatim>\<open>.onyxia\<close> or \<^verbatim>\<open>__proto__\<close> (\<open>roundtrip_without_proto\<close>). With an own key
  \<^verbatim>\<open>__proto__\<close> the claim fails: \<^verbatim>\<open>orderedSecret["__proto__"] = secret["__proto__"]\<close>, after
  the deletion of the own property, is an assignment to the accessor of
  \<^verbatim>\<open>Object.prototype\<close>, and the key is lost.
\<close>

theorem roundtrip_loses_proto_key:
  "wf_obj proto_secret \<and> \<not> has_own proto_secret extraKey \<and>
   put_payload proto_secret [] =
     [(''__proto__'', JStr ''x''), (''.onyxia'', extraValue [] [''__proto__''])] \<and>
   extract_extra (put_payload proto_secret []) = ([], [''__proto__'']) \<and>
   reorder (put_payload proto_secret []) [''__proto__''] = []"
  by code_simp

end
